theory Spec2Isabelle
  imports Main
begin

section \<open>Python values\<close>

text \<open>
  A decoded JSON document is a Python value built from \<open>None\<close>, booleans, integers,
  floats, strings, lists and dictionaries. A string is a list of code points; the model
  covers the code points below 256, one \<open>char\<close> each. A float is kept as mantissa and
  binary exponent; the program only passes floats through. A dictionary is the list of
  its items in insertion order; lookup takes the first item with the key.
\<close>

datatype json =
    JNull
  | JBool bool
  | JInt int
  | JFloat int int
  | JStr string
  | JArr "json list"
  | JObj "(string \<times> json) list"

datatype exn =
    AttributeError
  | TypeError
  | ValueError
  | KeyError
  | IndexError
  | NameError
  | UnboundLocalError
  | JSONDecodeError
  | RequestException
  | OSError
  | FileExistsError

text \<open>\<open>d.get(key, default)\<close> of a dictionary given by its items.\<close>

definition get :: "(string \<times> json) list \<Rightarrow> string \<Rightarrow> json \<Rightarrow> json" where
  "get d k dflt = (case map_of d k of None \<Rightarrow> dflt | Some v \<Rightarrow> v)"

section \<open>Character classes of the \<open>re\<close> module\<close>

text \<open>
  The patterns are \<open>str\<close> patterns compiled without flags, so \<open>\d\<close>, \<open>\w\<close> and \<open>\s\<close>
  are the Unicode classes: decimal digits, alphanumerics with the underscore, and
  whitespace. Below 256 these are the following code points. \<open>str.strip()\<close> removes the
  same whitespace.
\<close>

definition todecimal :: "char \<Rightarrow> nat option" where
  "todecimal c =
     (let n = (of_char c :: nat) in if 48 \<le> n \<and> n \<le> 57 then Some (n - 48) else None)"

definition isdecimal :: "char \<Rightarrow> bool" where
  "isdecimal c = (todecimal c \<noteq> None)"

definition isalnum :: "char \<Rightarrow> bool" where
  "isalnum c =
     (let n = (of_char c :: nat) in
        (48 \<le> n \<and> n \<le> 57) \<or> (65 \<le> n \<and> n \<le> 90) \<or> (97 \<le> n \<and> n \<le> 122)
        \<or> n = 170 \<or> n = 178 \<or> n = 179 \<or> n = 181 \<or> n = 185 \<or> n = 186
        \<or> (188 \<le> n \<and> n \<le> 190) \<or> (192 \<le> n \<and> n \<le> 214)
        \<or> (216 \<le> n \<and> n \<le> 246) \<or> (248 \<le> n \<and> n \<le> 255))"

definition isword :: "char \<Rightarrow> bool" where
  "isword c = (isalnum c \<or> c = CHR ''_'')"

definition isspace :: "char \<Rightarrow> bool" where
  "isspace c =
     (let n = (of_char c :: nat) in
        (9 \<le> n \<and> n \<le> 13) \<or> (28 \<le> n \<and> n \<le> 32) \<or> n = 133 \<or> n = 160)"

definition strip :: "string \<Rightarrow> string" where
  "strip s = rev (dropWhile isspace (rev (dropWhile isspace s)))"

text \<open>
  \<open>int(s)\<close> for a string of decimal digits, the only strings the program converts.
  Python accepts a sign, surrounding whitespace and underscores as well; the model
  raises on them, so it raises at least where Python does. CPython (from 3.11 on, and
  the security releases of 3.7 to 3.10) refuses to convert a string of more digits than
  \<open>sys.int_info.default_max_str_digits\<close> and raises ValueError; the scripts leave
  the default in place.
\<close>

definition int_max_str_digits :: nat where
  "int_max_str_digits = 4300"

fun digits_value :: "int \<Rightarrow> string \<Rightarrow> int option" where
  "digits_value acc [] = Some acc"
| "digits_value acc (c # cs) =
     (case todecimal c of None \<Rightarrow> None | Some d \<Rightarrow> digits_value (10 * acc + int d) cs)"

definition py_int :: "string \<Rightarrow> exn + int" where
  "py_int s =
     (if s = [] \<or> int_max_str_digits < length s then Inl ValueError
      else case digits_value 0 s of None \<Rightarrow> Inl ValueError | Some n \<Rightarrow> Inr n)"

section \<open>Regular expressions\<close>

text \<open>
  Every pattern of the program is a sequence of literal characters and of groups
  \<open>(C+)\<close> for a character class \<open>C\<close>. \<open>match_here\<close> is the backtracking matcher at a
  fixed position: a group first takes the longest run of \<open>C\<close> and gives characters back
  one at a time while the rest of the pattern fails. It returns the groups and the
  input left after the match.
\<close>

datatype item = Lit char | Plus "char \<Rightarrow> bool"

type_synonym pattern = "item list"

primrec greedy ::
  "(string \<Rightarrow> (string list \<times> string) option) \<Rightarrow> string \<Rightarrow> nat \<Rightarrow> (string list \<times> string) option"
where
  "greedy k s 0 = None"
| "greedy k s (Suc n) =
     (case k (drop (Suc n) s) of
        Some (gs, r) \<Rightarrow> Some (take (Suc n) s # gs, r)
      | None \<Rightarrow> greedy k s n)"

primrec match_here :: "pattern \<Rightarrow> string \<Rightarrow> (string list \<times> string) option" where
  "match_here [] = (\<lambda>s. Some ([], s))"
| "match_here (x # p) =
     (\<lambda>s. case x of
        Lit c \<Rightarrow> (case s of [] \<Rightarrow> None | y # ys \<Rightarrow> if y = c then match_here p ys else None)
      | Plus C \<Rightarrow> greedy (match_here p) s (length (takeWhile C s)))"

record re_match =
  start :: nat
  stop :: nat
  groups :: "string list"

text \<open>\<open>m.group(i)\<close> for \<open>i \<ge> 1\<close>.\<close>

definition group :: "re_match \<Rightarrow> nat \<Rightarrow> exn + string" where
  "group m i =
     (if 1 \<le> i \<and> i \<le> length (groups m) then Inr (groups m ! (i - 1)) else Inl IndexError)"

text \<open>
  \<open>re.search\<close> tries the positions from left to right; \<open>search_at p i s\<close> searches the
  suffix \<open>s\<close> that starts at offset \<open>i\<close> of the text.
\<close>

fun search_at :: "pattern \<Rightarrow> nat \<Rightarrow> string \<Rightarrow> re_match option" where
  "search_at p i s =
     (case match_here p s of
        Some (gs, r) \<Rightarrow> Some \<lparr>start = i, stop = i + (length s - length r), groups = gs\<rparr>
      | None \<Rightarrow> (case s of [] \<Rightarrow> None | _ # ys \<Rightarrow> search_at p (Suc i) ys))"

definition re_search :: "pattern \<Rightarrow> string \<Rightarrow> re_match option" where
  "re_search p s = search_at p 0 s"

text \<open>
  \<open>re.finditer\<close> yields the matches from left to right, each search starting where the
  previous match ended. No pattern of the program matches the empty string; for an empty
  match the scan moves on by one character.
\<close>

fun finditer_at :: "pattern \<Rightarrow> nat \<Rightarrow> string \<Rightarrow> re_match list" where
  "finditer_at p i s =
     (case match_here p s of
        Some (gs, r) \<Rightarrow>
          \<lparr>start = i, stop = i + (length s - length r), groups = gs\<rparr> #
          (if length r < length s then finditer_at p (i + (length s - length r)) r
           else case s of [] \<Rightarrow> [] | _ # ys \<Rightarrow> finditer_at p (Suc i) ys)
      | None \<Rightarrow> (case s of [] \<Rightarrow> [] | _ # ys \<Rightarrow> finditer_at p (Suc i) ys))"

definition re_finditer :: "pattern \<Rightarrow> string \<Rightarrow> re_match list" where
  "re_finditer p s = finditer_at p 0 s"

section \<open>The log parser\<close>

text \<open>
  The parsed record, \<open>parsed_data\<close> in the source. \<open>None\<close> is \<open>JNull\<close> for the
  fields passed through from the payload and \<open>None\<close> of the option type for \<open>gen\<close>,
  \<open>tier\<close> and \<open>winner\<close>. \<open>poke\<close> is the inner dictionary from player slot to roster.
\<close>

record replay =
  id_field :: json
  format_field :: json
  players :: json
  gen :: "int option"
  tier :: "string option"
  poke :: "string \<rightharpoonup> string list"
  winner :: "string option"
  rules :: "string list"
  metadata :: "(string \<times> json) list"
  full_log :: string

definition gen_pattern :: pattern where
  "gen_pattern = map Lit ''|gen|'' @ [Plus isdecimal]"

definition tier_pattern :: pattern where
  "tier_pattern =
     map Lit ''|tier|'' @ [Plus (\<lambda>c. isword c \<or> isspace c \<or> c = CHR ''['' \<or> c = CHR '']'')]"

definition winner_pattern :: pattern where
  "winner_pattern = map Lit ''|win|'' @ [Plus (\<lambda>c. isword c \<or> isspace c \<or> c = CHR ''*'')]"

definition poke_pattern :: pattern where
  "poke_pattern =
     map Lit ''|poke|'' @ [Plus isword, Lit CHR ''|'',
       Plus (\<lambda>c. isword c \<or> isspace c \<or> c = CHR '','' \<or> c = CHR ''-'' \<or> c = CHR ''*'')]"

definition rule_pattern :: pattern where
  "rule_pattern =
     map Lit ''|rule|'' @
       [Plus (\<lambda>c. isword c \<or> isspace c \<or> c = CHR '','' \<or> c = CHR '':'' \<or> c = CHR ''-'')]"

definition patterns :: "(string \<times> pattern) list" where
  "patterns = [(''gen'', gen_pattern), (''tier'', tier_pattern), (''winner'', winner_pattern)]"

definition metadata_of :: "(string \<times> json) list \<Rightarrow> (string \<times> json) list" where
  "metadata_of d =
     [(''views'', get d ''views'' JNull),
      (''uploadtime'', get d ''uploadtime'' JNull),
      (''rating'', get d ''rating'' JNull),
      (''private'', get d ''private'' JNull),
      (''formatid'', get d ''formatid'' JNull)]"

definition initial_parsed :: "(string \<times> json) list \<Rightarrow> string \<Rightarrow> replay" where
  "initial_parsed d log_content =
     \<lparr>id_field = get d ''id'' JNull,
      format_field = get d ''format'' JNull,
      players = get d ''players'' JNull,
      gen = None,
      tier = None,
      poke = [''p1'' \<mapsto> [], ''p2'' \<mapsto> []],
      winner = None,
      rules = [],
      metadata = [],
      full_log = log_content\<rparr>"

subsection \<open>\<open>thread_scrape.py\<close>: \<open>_parse_replay_data\<close>\<close>

text \<open>The body of the loop over \<open>patterns.items()\<close>.\<close>

definition basic_step :: "string \<Rightarrow> string \<times> pattern \<Rightarrow> replay \<Rightarrow> exn + replay" where
  "basic_step log_content kp parsed =
     (case re_search (snd kp) log_content of
        None \<Rightarrow> Inr parsed
      | Some m \<Rightarrow>
          (case group m 1 of
             Inl e \<Rightarrow> Inl e
           | Inr g \<Rightarrow>
               if fst kp = ''gen'' then
                 (case py_int g of Inl e \<Rightarrow> Inl e | Inr n \<Rightarrow> Inr (parsed\<lparr>gen := Some n\<rparr>))
               else if fst kp = ''tier'' then Inr (parsed\<lparr>tier := Some (strip g)\<rparr>)
               else Inr (parsed\<lparr>winner := Some (strip g)\<rparr>)))"

fun basic_loop :: "string \<Rightarrow> (string \<times> pattern) list \<Rightarrow> replay \<Rightarrow> exn + replay" where
  "basic_loop log_content [] parsed = Inr parsed"
| "basic_loop log_content (kp # kps) parsed =
     (case basic_step log_content kp parsed of
        Inl e \<Rightarrow> Inl e
      | Inr parsed' \<Rightarrow> basic_loop log_content kps parsed')"

text \<open>The body of the loop over the matches of \<open>poke_pattern\<close>.\<close>

definition poke_step :: "re_match \<Rightarrow> replay \<Rightarrow> exn + replay" where
  "poke_step m parsed =
     (case group m 1 of
        Inl e \<Rightarrow> Inl e
      | Inr player \<Rightarrow>
          (case group m 2 of
             Inl e \<Rightarrow> Inl e
           | Inr g \<Rightarrow>
               let pokemon = strip g in
               if player \<in> set [''p1'', ''p2''] then
                 (case poke parsed player of
                    None \<Rightarrow> Inl KeyError
                  | Some l \<Rightarrow> Inr (parsed\<lparr>poke := (poke parsed)(player \<mapsto> l @ [pokemon])\<rparr>))
               else Inr parsed))"

fun poke_loop :: "re_match list \<Rightarrow> replay \<Rightarrow> exn + replay" where
  "poke_loop [] parsed = Inr parsed"
| "poke_loop (m # ms) parsed =
     (case poke_step m parsed of Inl e \<Rightarrow> Inl e | Inr parsed' \<Rightarrow> poke_loop ms parsed')"

text \<open>The list comprehension over the matches of \<open>rule_pattern\<close>.\<close>

fun rule_list :: "re_match list \<Rightarrow> exn + string list" where
  "rule_list [] = Inr []"
| "rule_list (m # ms) =
     (case group m 1 of
        Inl e \<Rightarrow> Inl e
      | Inr g \<Rightarrow> (case rule_list ms of Inl e \<Rightarrow> Inl e | Inr rs \<Rightarrow> Inr (strip g # rs)))"

text \<open>
  \<open>data_dict.get\<close> raises AttributeError unless \<open>data_dict\<close> is a dictionary, and
  \<open>re.search\<close> raises TypeError unless \<open>log_content\<close> is a string.
\<close>

definition parse_replay_data :: "json \<Rightarrow> json \<Rightarrow> exn + replay" where
  "parse_replay_data log_content data_dict =
     (case data_dict of
        JObj d \<Rightarrow>
          (case log_content of
             JStr s \<Rightarrow>
               (case basic_loop s patterns (initial_parsed d s) of
                  Inl e \<Rightarrow> Inl e
                | Inr parsed1 \<Rightarrow>
                    (case poke_loop (re_finditer poke_pattern s) parsed1 of
                       Inl e \<Rightarrow> Inl e
                     | Inr parsed2 \<Rightarrow>
                         (case rule_list (re_finditer rule_pattern s) of
                            Inl e \<Rightarrow> Inl e
                          | Inr rs \<Rightarrow> Inr (parsed2\<lparr>rules := rs, metadata := metadata_of d\<rparr>))))
           | _ \<Rightarrow> Inl TypeError)
      | _ \<Rightarrow> Inl AttributeError)"

subsection \<open>\<open>download_json.py\<close> and \<open>mass_scrape.py\<close>: the parsing part of \<open>get_replay\<close>\<close>

text \<open>
  Both files define the same \<open>get_replay\<close>. Between the fetch and the file write it
  parses \<open>data_dict\<close> as follows; \<open>data_dict\<close> is a local variable that is unbound
  (\<open>None\<close> here) when the status was not 200.
\<close>

definition gr_poke_step :: "re_match \<Rightarrow> replay \<Rightarrow> exn + replay" where
  "gr_poke_step poke_match parsed =
     (case group poke_match 1 of
        Inl e \<Rightarrow> Inl e
      | Inr player \<Rightarrow>
          (case group poke_match 2 of
             Inl e \<Rightarrow> Inl e
           | Inr g \<Rightarrow>
               let pokemon = strip g in
               if player = ''p1'' then
                 (case poke parsed ''p1'' of
                    None \<Rightarrow> Inl KeyError
                  | Some l \<Rightarrow> Inr (parsed\<lparr>poke := (poke parsed)(''p1'' \<mapsto> l @ [pokemon])\<rparr>))
               else if player = ''p2'' then
                 (case poke parsed ''p2'' of
                    None \<Rightarrow> Inl KeyError
                  | Some l \<Rightarrow> Inr (parsed\<lparr>poke := (poke parsed)(''p2'' \<mapsto> l @ [pokemon])\<rparr>))
               else Inr parsed))"

fun gr_poke_loop :: "re_match list \<Rightarrow> replay \<Rightarrow> exn + replay" where
  "gr_poke_loop [] parsed = Inr parsed"
| "gr_poke_loop (m # ms) parsed =
     (case gr_poke_step m parsed of Inl e \<Rightarrow> Inl e | Inr parsed' \<Rightarrow> gr_poke_loop ms parsed')"

fun gr_rule_loop :: "re_match list \<Rightarrow> replay \<Rightarrow> exn + replay" where
  "gr_rule_loop [] parsed = Inr parsed"
| "gr_rule_loop (m # ms) parsed =
     (case group m 1 of
        Inl e \<Rightarrow> Inl e
      | Inr g \<Rightarrow> gr_rule_loop ms (parsed\<lparr>rules := rules parsed @ [strip g]\<rparr>))"

definition gr_gen :: "string \<Rightarrow> replay \<Rightarrow> exn + replay" where
  "gr_gen log_content parsed =
     (case re_search gen_pattern log_content of
        None \<Rightarrow> Inr parsed
      | Some gen_match \<Rightarrow>
          (case group gen_match 1 of
             Inl e \<Rightarrow> Inl e
           | Inr g \<Rightarrow> (case py_int g of Inl e \<Rightarrow> Inl e | Inr n \<Rightarrow> Inr (parsed\<lparr>gen := Some n\<rparr>))))"

definition gr_tier :: "string \<Rightarrow> replay \<Rightarrow> exn + replay" where
  "gr_tier log_content parsed =
     (case re_search tier_pattern log_content of
        None \<Rightarrow> Inr parsed
      | Some tier_match \<Rightarrow>
          (case group tier_match 1 of
             Inl e \<Rightarrow> Inl e
           | Inr g \<Rightarrow> Inr (parsed\<lparr>tier := Some (strip g)\<rparr>)))"

definition gr_winner :: "string \<Rightarrow> replay \<Rightarrow> exn + replay" where
  "gr_winner log_content parsed =
     (case re_search winner_pattern log_content of
        None \<Rightarrow> Inr parsed
      | Some winner_match \<Rightarrow>
          (case group winner_match 1 of
             Inl e \<Rightarrow> Inl e
           | Inr g \<Rightarrow> Inr (parsed\<lparr>winner := Some (strip g)\<rparr>)))"

definition get_replay_parse :: "json option \<Rightarrow> exn + replay" where
  "get_replay_parse data_dict =
     (case data_dict of
        None \<Rightarrow> Inl UnboundLocalError
      | Some (JObj d) \<Rightarrow>
          (case get d ''log'' (JStr []) of
             JStr log_content \<Rightarrow>
               (case gr_gen log_content (initial_parsed d log_content) of
                  Inl e \<Rightarrow> Inl e
                | Inr parsed1 \<Rightarrow>
               (case gr_tier log_content parsed1 of
                  Inl e \<Rightarrow> Inl e
                | Inr parsed2 \<Rightarrow>
               (case gr_poke_loop (re_finditer poke_pattern log_content) parsed2 of
                  Inl e \<Rightarrow> Inl e
                | Inr parsed3 \<Rightarrow>
               (case gr_rule_loop (re_finditer rule_pattern log_content) parsed3 of
                  Inl e \<Rightarrow> Inl e
                | Inr parsed4 \<Rightarrow>
               (case gr_winner log_content parsed4 of
                  Inl e \<Rightarrow> Inl e
                | Inr parsed5 \<Rightarrow> Inr (parsed5\<lparr>metadata := metadata_of d\<rparr>))))))
           | _ \<Rightarrow> Inl TypeError)
      | Some _ \<Rightarrow> Inl AttributeError)"

section \<open>What the parser computes\<close>

text \<open>
  The number of groups of a pattern, the first group of its leftmost match, and the
  roster of a slot read off a list of matches of \<open>poke_pattern\<close>: the trimmed second
  groups of the matches whose first group is the slot, in the order of the list.
\<close>

definition count_groups :: "pattern \<Rightarrow> nat" where
  "count_groups p = length (filter (\<lambda>x. case x of Plus _ \<Rightarrow> True | Lit _ \<Rightarrow> False) p)"

definition first_group :: "pattern \<Rightarrow> string \<Rightarrow> string option" where
  "first_group p s =
     (case re_search p s of
        None \<Rightarrow> None
      | Some m \<Rightarrow> (case groups m of [] \<Rightarrow> None | g # _ \<Rightarrow> Some g))"

definition roster :: "string \<Rightarrow> re_match list \<Rightarrow> string list" where
  "roster slot ms =
     concat (map (\<lambda>m. case groups m of
                        [player, g] \<Rightarrow> if player = slot then [strip g] else []
                      | _ \<Rightarrow> []) ms)"

definition rule_texts :: "re_match list \<Rightarrow> string list" where
  "rule_texts ms = concat (map (\<lambda>m. case groups m of [g] \<Rightarrow> [strip g] | _ \<Rightarrow> []) ms)"

definition gen_value :: "string \<Rightarrow> int option" where
  "gen_value s =
     (case first_group gen_pattern s of
        None \<Rightarrow> None
      | Some g \<Rightarrow> (case py_int g of Inl _ \<Rightarrow> None | Inr n \<Rightarrow> Some n))"

text \<open>
  The digits of the first occurrence of the generation pattern, when there is one, are
  few enough for \<open>int\<close>.
\<close>

definition gen_fits :: "string \<Rightarrow> bool" where
  "gen_fits s =
     (case first_group gen_pattern s of
        None \<Rightarrow> True
      | Some g \<Rightarrow> length g \<le> int_max_str_digits)"

definition parsed_of :: "(string \<times> json) list \<Rightarrow> string \<Rightarrow> replay" where
  "parsed_of d s =
     \<lparr>id_field = get d ''id'' JNull,
      format_field = get d ''format'' JNull,
      players = get d ''players'' JNull,
      gen = gen_value s,
      tier = map_option strip (first_group tier_pattern s),
      poke = [''p1'' \<mapsto> roster ''p1'' (re_finditer poke_pattern s),
              ''p2'' \<mapsto> roster ''p2'' (re_finditer poke_pattern s)],
      winner = map_option strip (first_group winner_pattern s),
      rules = rule_texts (re_finditer rule_pattern s),
      metadata = metadata_of d,
      full_log = s\<rparr>"

text \<open>
  An occurrence of a pattern at offset \<open>k\<close> of a text, with the groups it captures, and the
  absence of any occurrence at the offsets below \<open>k\<close>.
\<close>

definition occurs :: "pattern \<Rightarrow> string \<Rightarrow> nat \<Rightarrow> string list \<Rightarrow> bool" where
  "occurs p s k gs \<longleftrightarrow> k \<le> length s \<and> map_option fst (match_here p (drop k s)) = Some gs"

definition none_before :: "pattern \<Rightarrow> string \<Rightarrow> nat \<Rightarrow> bool" where
  "none_before p s k = list_all (\<lambda>j. match_here p (drop j s) = None) [0..<k]"


text \<open>A match of \<open>poke_pattern\<close> whose slot, its first group, is \<open>p1\<close> or \<open>p2\<close>.\<close>

definition known_slot :: "re_match \<Rightarrow> bool" where
  "known_slot m =
     (case groups m of [player, g] \<Rightarrow> player \<in> set [''p1'', ''p2''] | _ \<Rightarrow> False)"

section \<open>The environment: network and file system\<close>

text \<open>
  The state the program acts on: the URLs requested so far, the paths passed to \<open>open\<close>
  for writing so far, the file writes completed so far, the paths of the files that were
  opened and whose write then failed (such a file exists, cut short), the directories,
  and the lines logged or printed, each in order.
\<close>

record response =
  status_code :: int
  body :: "json option"

datatype file_content = ReplayFile replay | JsonFile json

datatype log_event =
    Error_failed_download string int
  | Error_processing string exn
  | Error_failed_user string
  | Error_processing_user string exn
  | Error_failed_ladder int
  | Error_in_ladder exn
  | Info_downloaded nat string
  | Print_failed int
  | Print_ladder_ok

record world =
  requests :: "string list"
  opened :: "string list"
  writes :: "(string \<times> file_content) list"
  truncated :: "string list"
  dirs :: "string set"
  log_lines :: "log_event list"

text \<open>
  What the program cannot decide is a parameter: the reply to a GET (a raised transport
  error or a response whose body decodes to JSON or not), whether a file can be opened
  for writing, whether the data can then be written to it in full, whether a directory
  can be created, each as a function of the state reached, and the text Python puts into
  an f-string for a value that is not a string.
\<close>

record env =
  net :: "world \<Rightarrow> string \<Rightarrow> exn + response"
  writable :: "world \<Rightarrow> string \<Rightarrow> bool"
  dumpable :: "world \<Rightarrow> string \<Rightarrow> bool"
  creatable :: "world \<Rightarrow> string \<Rightarrow> bool"
  render :: "json \<Rightarrow> string"

definition request :: "env \<Rightarrow> string \<Rightarrow> world \<Rightarrow> (exn + response) \<times> world" where
  "request E url w = (net E w url, w\<lparr>requests := requests w @ [url]\<rparr>)"

definition response_json :: "response \<Rightarrow> exn + json" where
  "response_json r = (case body r of None \<Rightarrow> Inl JSONDecodeError | Some v \<Rightarrow> Inr v)"

text \<open>
  \<open>with open(path, 'w') as f: json.dump(data, f)\<close>. The call of \<open>open\<close> is recorded. If it
  is refused it raises OSError and no file results. Once it has succeeded the file exists
  and is empty; \<open>json.dump\<close> then either writes the data in full, or fails on the way (the
  device is full, say), which raises OSError and leaves the file cut short. The values
  written here come from decoded JSON and from the parser, so \<open>json.dump\<close> can always
  serialise them.
\<close>

definition write_file :: "env \<Rightarrow> string \<Rightarrow> file_content \<Rightarrow> world \<Rightarrow> (exn + unit) \<times> world" where
  "write_file E path content w =
     (if \<not> writable E w path then
        (Inl OSError, w\<lparr>opened := opened w @ [path]\<rparr>)
      else if \<not> dumpable E w path then
        (Inl OSError, w\<lparr>opened := opened w @ [path], truncated := truncated w @ [path]\<rparr>)
      else
        (Inr (), w\<lparr>opened := opened w @ [path], writes := writes w @ [(path, content)]\<rparr>))"

definition logged :: "log_event \<Rightarrow> world \<Rightarrow> world" where
  "logged ev w = w\<lparr>log_lines := log_lines w @ [ev]\<rparr>"

text \<open>What exists: the directories created and the files opened with success.\<close>

definition path_exists :: "string \<Rightarrow> world \<Rightarrow> bool" where
  "path_exists path w \<longleftrightarrow>
     path \<in> dirs w \<or> path \<in> set (map fst (writes w)) \<or> path \<in> set (truncated w)"

text \<open>The path itself and its prefixes that end before a separator.\<close>

definition ancestors :: "string \<Rightarrow> string list" where
  "ancestors path =
     map (\<lambda>i. take i path) (filter (\<lambda>i. 0 < i \<and> path ! i = CHR ''/'') [0..<length path]) @ [path]"

text \<open>\<open>os.makedirs(path)\<close> raises FileExistsError when the path exists.\<close>

definition makedirs :: "env \<Rightarrow> string \<Rightarrow> world \<Rightarrow> (exn + unit) \<times> world" where
  "makedirs E path w =
     (if path_exists path w then (Inl FileExistsError, w)
      else if creatable E w path then (Inr (), w\<lparr>dirs := dirs w \<union> set (ancestors path)\<rparr>)
      else (Inl OSError, w))"

text \<open>Subscription \<open>v[key]\<close> with a string key, iteration, and f-string formatting.\<close>

definition subscript :: "json \<Rightarrow> string \<Rightarrow> exn + json" where
  "subscript v key =
     (case v of
        JObj d \<Rightarrow> (case map_of d key of None \<Rightarrow> Inl KeyError | Some x \<Rightarrow> Inr x)
      | _ \<Rightarrow> Inl TypeError)"

definition py_iter :: "json \<Rightarrow> exn + json list" where
  "py_iter v =
     (case v of
        JArr xs \<Rightarrow> Inr xs
      | JStr s \<Rightarrow> Inr (map (\<lambda>c. JStr [c]) s)
      | JObj d \<Rightarrow> Inr (map (\<lambda>kv. JStr (fst kv)) d)
      | _ \<Rightarrow> Inl TypeError)"

definition fstr :: "env \<Rightarrow> json \<Rightarrow> string" where
  "fstr E v = (case v of JStr s \<Rightarrow> s | _ \<Rightarrow> render E v)"

definition replay_host :: string where
  "replay_host = ''https://replay.pokemonshowdown.com/''"

definition full_url :: "string \<Rightarrow> string" where
  "full_url url = (if take (length replay_host) url = replay_host then url else replay_host @ url)"

definition user_url :: "env \<Rightarrow> json \<Rightarrow> string" where
  "user_url E user = ''https://replay.pokemonshowdown.com/search.json?user='' @ fstr E user"

definition ladder_url :: "string \<Rightarrow> string" where
  "ladder_url format_name = ''https://pokemonshowdown.com/ladder/'' @ format_name @ ''.json''"

section \<open>\<open>thread_scrape.py\<close>: the threaded downloader\<close>

text \<open>
  \<open>_safe_mkdir\<close>; \<open>safemkdir\<close> of \<open>mass_scrape.py\<close> has the same body. The worker count
  \<open>max_workers\<close> and the progress bar have no part in what is fetched or written and
  are left out.
\<close>

definition safe_mkdir :: "env \<Rightarrow> string \<Rightarrow> world \<Rightarrow> (exn + unit) \<times> world" where
  "safe_mkdir E directory w =
     (if \<not> path_exists directory w then makedirs E directory w else (Inr (), w))"

text \<open>
  \<open>_download_replay\<close>: the body of the \<open>try\<close>, which returns the parsed record, returns
  \<open>None\<close> or raises, and the function with its handler, which catches every exception.
  The body is the request followed by what is done with the reply; the two are kept
  apart because other threads can run between them.
\<close>

definition download_replay_rest ::
  "env \<Rightarrow> string \<Rightarrow> string \<Rightarrow> exn + response \<Rightarrow> world \<Rightarrow> (exn + replay option) \<times> world" where
  "download_replay_rest E url output_path reply w1 =
     (case reply of
        Inl e \<Rightarrow> (Inl e, w1)
      | Inr response \<Rightarrow>
          if status_code response \<noteq> 200 then
            (Inr None, logged (Error_failed_download url (status_code response)) w1)
          else
            (case response_json response of
               Inl e \<Rightarrow> (Inl e, w1)
             | Inr data_dict \<Rightarrow>
                 (case data_dict of
                    JObj d \<Rightarrow>
                      (case parse_replay_data (get d ''log'' (JStr [])) data_dict of
                         Inl e \<Rightarrow> (Inl e, w1)
                       | Inr parsed_data \<Rightarrow>
                           (case write_file E output_path (ReplayFile parsed_data) w1 of
                              (Inl e, w2) \<Rightarrow> (Inl e, w2)
                            | (Inr _, w2) \<Rightarrow> (Inr (Some parsed_data), w2)))
                  | _ \<Rightarrow> (Inl AttributeError, w1))))"

definition download_replay_try ::
  "env \<Rightarrow> string \<Rightarrow> string \<Rightarrow> world \<Rightarrow> (exn + replay option) \<times> world" where
  "download_replay_try E url output_path w =
     (case request E url w of (reply, w1) \<Rightarrow> download_replay_rest E url output_path reply w1)"

definition download_replay :: "env \<Rightarrow> string \<Rightarrow> string \<Rightarrow> world \<Rightarrow> replay option \<times> world" where
  "download_replay E url output_path w =
     (case download_replay_try E (full_url url) output_path w of
        (Inr result, w') \<Rightarrow> (result, w')
      | (Inl e, w') \<Rightarrow> (None, logged (Error_processing (full_url url) e) w'))"

text \<open>
  The tasks of the inner pool. A call of \<open>_download_replay\<close> in a worker thread goes
  through three steps, each with at most one effect on the state: the request; what is
  done with the reply, which ends the call or raises; and the handler, which logs what
  was raised. The file is opened and written under \<open>file_lock\<close>, in one step.
\<close>

datatype task =
    Queued string string
  | Fetched string string "exn + response"
  | Raising string exn
  | Done "replay option"

definition task_step :: "env \<Rightarrow> task \<Rightarrow> world \<Rightarrow> task \<times> world" where
  "task_step E t w =
     (case t of
        Queued url output_path \<Rightarrow>
          (case request E (full_url url) w of
             (reply, w1) \<Rightarrow> (Fetched (full_url url) output_path reply, w1))
      | Fetched url output_path reply \<Rightarrow>
          (case download_replay_rest E url output_path reply w of
             (Inl e, w') \<Rightarrow> (Raising url e, w')
           | (Inr result, w') \<Rightarrow> (Done result, w'))
      | Raising url e \<Rightarrow> (Done None, logged (Error_processing url e) w)
      | Done result \<Rightarrow> (Done result, w))"

definition is_done :: "task \<Rightarrow> bool" where
  "is_done t = (case t of Done _ \<Rightarrow> True | _ \<Rightarrow> False)"

definition future_result :: "task \<Rightarrow> replay option" where
  "future_result t = (case t of Done result \<Rightarrow> result | _ \<Rightarrow> None)"

text \<open>
  A schedule of the pool: the steps the workers take, each entry naming the task that
  takes its next step, and the order in which \<open>as_completed\<close> hands out the futures that
  were finished already when it was called (it keeps those in a set). An entry that
  names no task, or a finished one, is skipped. The pool state is the tasks, the indices
  of the finished ones in the order in which they finished, and the world.
\<close>

record pool_schedule =
  steps :: "nat list"
  finished_first :: "nat list"

fun run_tasks ::
  "env \<Rightarrow> nat list \<Rightarrow> task list \<times> nat list \<times> world \<Rightarrow> task list \<times> nat list \<times> world" where
  "run_tasks E [] (tasks, completed, w) = (tasks, completed, w)"
| "run_tasks E (i # sched) (tasks, completed, w) =
     (if i < length tasks \<and> \<not> is_done (tasks ! i) then
        (case task_step E (tasks ! i) w of
           (t', w') \<Rightarrow>
             run_tasks E sched
               (tasks[i := t'], if is_done t' then completed @ [i] else completed, w'))
      else run_tasks E sched (tasks, completed, w))"


definition wait_tasks :: "env \<Rightarrow> task list \<times> nat list \<times> world \<Rightarrow> task list \<times> nat list \<times> world" where
  "wait_tasks E st = run_tasks E (concat (map (\<lambda>i. [i, i, i]) [0..<length (fst st)])) st"

definition run_pool ::
  "env \<Rightarrow> pool_schedule \<Rightarrow> task list \<Rightarrow> world \<Rightarrow> task list \<times> nat list \<times> world" where
  "run_pool E sched tasks w = wait_tasks E (run_tasks E (steps sched) (tasks, [], w))"

text \<open>
  \<open>as_completed\<close> yields the futures that were finished when it was called in the order of
  a set, then the others in the order in which they finish.
\<close>

definition as_completed :: "pool_schedule \<Rightarrow> nat list \<Rightarrow> nat list" where
  "as_completed sched completed =
     filter (\<lambda>i. i \<in> set completed) (remdups (finished_first sched))
     @ filter (\<lambda>i. i \<notin> set (finished_first sched)) completed"

text \<open>
  The comprehension that submits the tasks: a game without an \<open>id\<close> raises after the
  tasks of the games before it were submitted, and these still run.
\<close>

definition replay_task :: "env \<Rightarrow> json \<Rightarrow> task" where
  "replay_task E gid = Queued (fstr E gid @ ''.json'') (''info/all/'' @ fstr E gid @ ''.json'')"

fun submit_replays :: "env \<Rightarrow> json list \<Rightarrow> task list \<times> exn option" where
  "submit_replays E [] = ([], None)"
| "submit_replays E (game # games) =
     (case subscript game ''id'' of
        Inl e \<Rightarrow> ([], Some e)
      | Inr gid \<Rightarrow>
          (case submit_replays E games of
             (tasks, raised) \<Rightarrow> (replay_task E gid # tasks, raised)))"

text \<open>The loop over the completed futures keeps the results that are not \<open>None\<close>.\<close>

fun collect_replays :: "replay option list \<Rightarrow> replay list" where
  "collect_replays [] = []"
| "collect_replays (replay_data # futures) =
     (case replay_data of
        Some r \<Rightarrow> r # collect_replays futures
      | None \<Rightarrow> collect_replays futures)"

text \<open>\<open>_process_user_replays\<close>, for a schedule of its pool.\<close>

definition process_user_replays_try ::
  "env \<Rightarrow> pool_schedule \<Rightarrow> json \<Rightarrow> world \<Rightarrow> (exn + replay list) \<times> world" where
  "process_user_replays_try E sched user w =
     (case request E (user_url E user) w of
        (Inl e, w1) \<Rightarrow> (Inl e, w1)
      | (Inr response, w1) \<Rightarrow>
          if status_code response \<noteq> 200 then
            (Inr [], logged (Error_failed_user (fstr E user)) w1)
          else
            (case response_json response of
               Inl e \<Rightarrow> (Inl e, w1)
             | Inr user_dict \<Rightarrow>
                 (case py_iter user_dict of
                    Inl e \<Rightarrow> (Inl e, w1)
                  | Inr games \<Rightarrow>
                      (case submit_replays E games of
                         (tasks, raised) \<Rightarrow>
                           (case run_pool E sched tasks w1 of
                              (futures, completed, w2) \<Rightarrow>
                                (case raised of
                                   Some e \<Rightarrow> (Inl e, w2)
                                 | None \<Rightarrow>
                                     (Inr (collect_replays
                                        (map (\<lambda>i. future_result (futures ! i))
                                           (as_completed sched completed))), w2)))))))"

definition process_user_replays ::
  "env \<Rightarrow> pool_schedule \<Rightarrow> json \<Rightarrow> world \<Rightarrow> replay list \<times> world" where
  "process_user_replays E sched user w =
     (case process_user_replays_try E sched user w of
        (Inr replays, w') \<Rightarrow> (replays, w')
      | (Inl e, w') \<Rightarrow> ([], logged (Error_processing_user (fstr E user) e) w'))"

text \<open>
  \<open>download_ladder_replays\<close>. Its pool of user tasks is modelled by one of its schedules
  only: the user tasks run one after the other in the order of the ladder, each with its
  replay tasks one after the other. What is proved of this function concerns the runs
  that end before the pool is started.
\<close>

definition in_order :: pool_schedule where
  "in_order = \<lparr>steps = [], finished_first = []\<rparr>"

fun submit_users :: "env \<Rightarrow> json list \<Rightarrow> world \<Rightarrow> (exn + (json \<times> replay list) list) \<times> world" where
  "submit_users E [] w = (Inr [], w)"
| "submit_users E (entry # entries) w =
     (case subscript entry ''userid'' of
        Inl e \<Rightarrow> (Inl e, w)
      | Inr user \<Rightarrow>
          (case process_user_replays E in_order user w of
             (replays, w1) \<Rightarrow>
               (case submit_users E entries w1 of
                  (Inl e, w2) \<Rightarrow> (Inl e, w2)
                | (Inr futures, w2) \<Rightarrow> (Inr ((user, replays) # futures), w2))))"

fun report_users :: "env \<Rightarrow> (json \<times> replay list) list \<Rightarrow> world \<Rightarrow> world" where
  "report_users E [] w = w"
| "report_users E ((user, replays) # futures) w =
     report_users E futures (logged (Info_downloaded (length replays) (fstr E user)) w)"

definition download_ladder_try :: "env \<Rightarrow> string \<Rightarrow> world \<Rightarrow> (exn + unit) \<times> world" where
  "download_ladder_try E format_name w =
     (case safe_mkdir E ''info'' w of
        (Inl e, w1) \<Rightarrow> (Inl e, w1)
      | (Inr _, w1) \<Rightarrow>
     (case safe_mkdir E ''info/all'' w1 of
        (Inl e, w2) \<Rightarrow> (Inl e, w2)
      | (Inr _, w2) \<Rightarrow>
     (case request E (ladder_url format_name) w2 of
        (Inl e, w3) \<Rightarrow> (Inl e, w3)
      | (Inr response, w3) \<Rightarrow>
          if status_code response \<noteq> 200 then
            (Inr (), logged (Error_failed_ladder (status_code response)) w3)
          else
            (case response_json response of
               Inl e \<Rightarrow> (Inl e, w3)
             | Inr ladder_dict \<Rightarrow>
                 (case subscript ladder_dict ''toplist'' of
                    Inl e \<Rightarrow> (Inl e, w3)
                  | Inr toplist \<Rightarrow>
                      (case py_iter toplist of
                         Inl e \<Rightarrow> (Inl e, w3)
                       | Inr entries \<Rightarrow>
                           (case submit_users E entries w3 of
                              (Inl e, w4) \<Rightarrow> (Inl e, w4)
                            | (Inr futures, w4) \<Rightarrow> (Inr (), report_users E futures w4))))))))"

definition download_ladder_replays :: "env \<Rightarrow> string \<Rightarrow> world \<Rightarrow> (exn + unit) \<times> world" where
  "download_ladder_replays E format_name w =
     (case download_ladder_try E format_name w of
        (Inr u, w') \<Rightarrow> (Inr u, w')
      | (Inl e, w') \<Rightarrow> (Inr (), logged (Error_in_ladder e) w'))"

text \<open>
  A script ends with exit status 0 when its last statement returns and with status 1 when
  an exception reaches the top level. The script of \<open>thread_scrape.py\<close> is the call
  \<open>download_ladder_replays('gen3ou')\<close>.
\<close>

definition exit_status :: "exn + unit \<Rightarrow> nat" where
  "exit_status r = (case r of Inl _ \<Rightarrow> 1 | Inr _ \<Rightarrow> 0)"

definition thread_scrape_main :: "env \<Rightarrow> world \<Rightarrow> nat \<times> world" where
  "thread_scrape_main E w =
     (case download_ladder_replays E ''gen3ou'' w of (r, w') \<Rightarrow> (exit_status r, w'))"

text \<open>
  Workers that call \<open>_safe_mkdir\<close> at the same time: the test \<open>os.path.exists\<close> and the
  call \<open>os.makedirs\<close> are two steps of a worker, and a schedule lists which worker takes
  its next step.
\<close>

datatype pc = At_check | At_create | Returned | Raised exn

definition worker_step :: "env \<Rightarrow> string \<Rightarrow> pc \<Rightarrow> world \<Rightarrow> pc \<times> world" where
  "worker_step E directory p w =
     (case p of
        At_check \<Rightarrow> (if \<not> path_exists directory w then At_create else Returned, w)
      | At_create \<Rightarrow>
          (case makedirs E directory w of
             (Inl e, w') \<Rightarrow> (Raised e, w')
           | (Inr _, w') \<Rightarrow> (Returned, w'))
      | _ \<Rightarrow> (p, w))"

fun run_schedule :: "env \<Rightarrow> string \<Rightarrow> nat list \<Rightarrow> pc list \<times> world \<Rightarrow> pc list \<times> world" where
  "run_schedule E directory [] (pcs, w) = (pcs, w)"
| "run_schedule E directory (i # sched) (pcs, w) =
     (if i < length pcs then
        (case worker_step E directory (pcs ! i) w of
           (p', w') \<Rightarrow> run_schedule E directory sched (pcs[i := p'], w'))
      else run_schedule E directory sched (pcs, w))"

text \<open>The same calls made one after the other.\<close>

fun safe_mkdir_seq :: "env \<Rightarrow> string \<Rightarrow> nat \<Rightarrow> world \<Rightarrow> (exn + unit) list \<times> world" where
  "safe_mkdir_seq E directory 0 w = ([], w)"
| "safe_mkdir_seq E directory (Suc n) w =
     (case safe_mkdir E directory w of
        (r, w') \<Rightarrow> (case safe_mkdir_seq E directory n w' of (rs, w'') \<Rightarrow> (r # rs, w'')))"

section \<open>\<open>download_json.py\<close> and \<open>mass_scrape.py\<close>: the sequential scripts\<close>

text \<open>
  \<open>get_replay\<close> has no handler: whatever is raised in it leaves the function.
  \<open>data_dict\<close> is assigned only when the status is 200.
\<close>

definition get_replay :: "env \<Rightarrow> string \<Rightarrow> string \<Rightarrow> world \<Rightarrow> (exn + replay) \<times> world" where
  "get_replay E url output_path w =
     (case request E (full_url url) w of
        (Inl e, w1) \<Rightarrow> (Inl e, w1)
      | (Inr response, w1) \<Rightarrow>
          (case (if status_code response = 200 then
                   (case response_json response of
                      Inl e \<Rightarrow> (Inl e, w1)
                    | Inr v \<Rightarrow> (Inr (Some v), w1))
                 else (Inr None, logged (Print_failed (status_code response)) w1)) of
             (Inl e, w2) \<Rightarrow> (Inl e, w2)
           | (Inr data_dict, w2) \<Rightarrow>
               (case get_replay_parse data_dict of
                  Inl e \<Rightarrow> (Inl e, w2)
                | Inr parsed_data \<Rightarrow>
                    (case write_file E output_path (ReplayFile parsed_data) w2 of
                       (Inl e, w3) \<Rightarrow> (Inl e, w3)
                     | (Inr _, w3) \<Rightarrow> (Inr parsed_data, w3)))))"






section \<open>Environments that answer alike at every state\<close>



section \<open>Concrete environments\<close>

text \<open>
  The state before a run, an environment that permits every file operation and answers
  every request with status 404 and no body, and environments that answer the listed
  URLs with status 200 and a JSON body.
\<close>

definition empty_world :: world where
  "empty_world =
     \<lparr>requests = [], opened = [], writes = [], truncated = [], dirs = {}, log_lines = []\<rparr>"

definition serving :: "(string \<times> json) list \<Rightarrow> env" where
  "serving pages =
     \<lparr>net = (\<lambda>w url. case map_of pages url of
                        None \<Rightarrow> Inr \<lparr>status_code = 404, body = None\<rparr>
                      | Some v \<Rightarrow> Inr \<lparr>status_code = 200, body = Some v\<rparr>),
      writable = (\<lambda>w path. True),
      dumpable = (\<lambda>w path. True),
      creatable = (\<lambda>w path. True),
      render = (\<lambda>v. ''?'')\<rparr>"




text \<open>
  The service with the replay \<open>a\<close> where no file can be opened for writing (the output
  directory is missing, say), and where a file can be opened and the write then fails.
\<close>

definition replay_a :: "(string \<times> json) list" where
  "replay_a =
     [(''https://replay.pokemonshowdown.com/a.json'',
         JObj [(''id'', JStr ''a''), (''log'', JStr ''|gen|8'')])]"

definition read_only :: env where
  "read_only = (serving replay_a)\<lparr>writable := (\<lambda>w path. False)\<rparr>"

definition disk_full :: env where
  "disk_full = (serving replay_a)\<lparr>dumpable := (\<lambda>w path. False)\<rparr>"



lemma greedy_Some:
  "greedy k s n = Some (gs, r) \<Longrightarrow>
   \<exists>m gs'. 0 < m \<and> m \<le> n \<and> k (drop m s) = Some (gs', r) \<and> gs = take m s # gs'"
proof (induction n)
  case 0
  then show ?case by simp
next
  case (Suc n)
  show ?case
  proof (cases "k (drop (Suc n) s)")
    case None
    with Suc.prems have "greedy k s n = Some (gs, r)" by simp
    from Suc.IH [OF this] show ?thesis by (metis le_Suc_eq)
  next
    case (Some a)
    with Suc.prems show ?thesis by (cases a) auto
  qed
qed

lemma greedy_top:
  "0 < n \<Longrightarrow> k (drop n s) = Some (gs, r) \<Longrightarrow> greedy k s n = Some (take n s # gs, r)"
  by (cases n) simp_all

lemma match_here_groups:
  "match_here p s = Some (gs, r) \<Longrightarrow> length gs = count_groups p"
proof (induction p arbitrary: s gs r)
  case Nil
  then show ?case by (simp add: count_groups_def)
next
  case (Cons x p)
  show ?case
  proof (cases x)
    case (Lit c)
    with Cons.prems obtain ys where "match_here p ys = Some (gs, r)"
      by (auto split: list.splits if_splits)
    from Cons.IH [OF this] Lit show ?thesis by (simp add: count_groups_def)
  next
    case (Plus C)
    with Cons.prems have "greedy (match_here p) s (length (takeWhile C s)) = Some (gs, r)"
      by simp
    from greedy_Some [OF this] obtain m gs' where
      "match_here p (drop m s) = Some (gs', r)" "gs = take m s # gs'" by blast
    with Cons.IH [of "drop m s" gs' r] Plus show ?thesis by (simp add: count_groups_def)
  qed
qed

lemma match_here_lits:
  "match_here (map Lit l @ p) s =
     (if take (length l) s = l then match_here p (drop (length l) s) else None)"
proof (induction l arbitrary: s)
  case Nil
  then show ?case by simp
next
  case (Cons c l)
  then show ?case by (cases s) auto
qed

lemma match_here_class:
  "match_here [Plus C] s =
     (if takeWhile C s = [] then None else Some ([takeWhile C s], dropWhile C s))"
proof (cases "takeWhile C s = []")
  case True
  then show ?thesis by simp
next
  case False
  then have pos: "0 < length (takeWhile C s)" by simp
  have "greedy (match_here []) s (length (takeWhile C s)) =
          Some (take (length (takeWhile C s)) s # [], drop (length (takeWhile C s)) s)"
    by (rule greedy_top [OF pos]) simp
  with False show ?thesis
    by (simp add: takeWhile_eq_take [symmetric] dropWhile_eq_drop [symmetric])
qed

lemma match_here_lit_class:
  "match_here (map Lit l @ [Plus C]) s =
     (if take (length l) s = l \<and> takeWhile C (drop (length l) s) \<noteq> []
      then Some ([takeWhile C (drop (length l) s)], dropWhile C (drop (length l) s))
      else None)"
  by (simp add: match_here_lits match_here_class del: match_here.simps)


lemma search_at_leftmost:
  "k \<le> length s \<Longrightarrow> match_here p (drop k s) = Some (gs, r) \<Longrightarrow>
   (\<forall>j<k. match_here p (drop j s) = None) \<Longrightarrow>
   search_at p i s = Some \<lparr>start = i + k, stop = i + k + (length s - k - length r), groups = gs\<rparr>"
proof (induction s arbitrary: i k)
  case Nil
  then show ?case by simp
next
  case (Cons c s)
  show ?case
  proof (cases k)
    case 0
    with Cons.prems show ?thesis by simp
  next
    case (Suc k')
    with Cons.prems have none0: "match_here p (c # s) = None" by force
    from Suc Cons.prems have a: "k' \<le> length s" "match_here p (drop k' s) = Some (gs, r)"
      by simp_all
    have b: "\<forall>j<k'. match_here p (drop j s) = None"
    proof (intro allI impI)
      fix j assume "j < k'"
      then have "Suc j < k" using Suc by simp
      with Cons.prems(3) have "match_here p (drop (Suc j) (c # s)) = None" by blast
      then show "match_here p (drop j s) = None" by simp
    qed
    from Cons.IH [OF a b, of "Suc i"] none0 Suc show ?thesis by simp
  qed
qed

lemma search_at_Some:
  "search_at p i s = Some m \<Longrightarrow>
   \<exists>k r. k \<le> length s \<and> match_here p (drop k s) = Some (groups m, r) \<and>
     (\<forall>j<k. match_here p (drop j s) = None) \<and> start m = i + k"
proof (induction s arbitrary: i)
  case Nil
  then show ?case by (auto split: option.splits)
next
  case (Cons c s)
  show ?case
  proof (cases "match_here p (c # s)")
    case None
    with Cons.prems have "search_at p (Suc i) s = Some m" by simp
    from Cons.IH [OF this] obtain k r where k: "k \<le> length s"
      "match_here p (drop k s) = Some (groups m, r)"
      "\<forall>j<k. match_here p (drop j s) = None" "start m = Suc i + k" by blast
    have "\<forall>j<Suc k. match_here p (drop j (c # s)) = None"
    proof (intro allI impI)
      fix j assume "j < Suc k"
      with None k(3) show "match_here p (drop j (c # s)) = None" by (cases j) auto
    qed
    with k show ?thesis
      by (intro exI [of _ "Suc k"] exI [of _ r]) simp
  next
    case (Some a)
    with Cons.prems show ?thesis
      by (cases a) (auto intro!: exI [of _ 0])
  qed
qed

lemma match_here_rest:
  "match_here p s = Some (gs, r) \<Longrightarrow> length r \<le> length s \<and> r = drop (length s - length r) s"
proof (induction p arbitrary: s gs r)
  case Nil
  then show ?case by simp
next
  case (Cons x p)
  show ?case
  proof (cases x)
    case (Lit c)
    with Cons.prems obtain ys where ys: "s = c # ys" "match_here p ys = Some (gs, r)"
      by (auto split: list.splits if_splits)
    from Cons.IH [OF ys(2)] have "length r \<le> length ys" "r = drop (length ys - length r) ys"
      by simp_all
    with ys(1) show ?thesis by (simp add: Suc_diff_le)
  next
    case (Plus C)
    with Cons.prems have "greedy (match_here p) s (length (takeWhile C s)) = Some (gs, r)"
      by simp
    from greedy_Some [OF this] obtain m gs' where m: "0 < m" "m \<le> length (takeWhile C s)"
      "match_here p (drop m s) = Some (gs', r)" by blast
    from Cons.IH [OF m(3)] have a: "length r \<le> length (drop m s)"
      and b: "r = drop (length (drop m s) - length r) (drop m s)" by simp_all
    have "m \<le> length s" using m(2) length_takeWhile_le [of C s] by (rule le_trans)
    with a b show ?thesis
      by (metis add.commute diff_diff_left diff_le_self drop_drop le_trans length_drop
          ordered_cancel_comm_monoid_diff_class.add_diff_inverse le_diff_conv2)
  qed
qed

declare finditer_at.simps [simp del]

lemma finditer_at_Nil: "finditer_at p i [] = (case match_here p [] of
    Some (gs, r) \<Rightarrow> [\<lparr>start = i, stop = i + (0 - length r), groups = gs\<rparr>] | None \<Rightarrow> [])"
  by (simp add: finditer_at.simps [of p i "[]"] split: option.splits)

lemma finditer_at_None:
  "match_here p (c # ys) = None \<Longrightarrow> finditer_at p i (c # ys) = finditer_at p (Suc i) ys"
  by (simp add: finditer_at.simps [of p i "c # ys"])

lemma finditer_at_Some:
  "match_here p (c # ys) = Some (gs, r) \<Longrightarrow>
   finditer_at p i (c # ys) =
     \<lparr>start = i, stop = i + (length (c # ys) - length r), groups = gs\<rparr> #
     (if length r < length (c # ys) then finditer_at p (i + (length (c # ys) - length r)) r
      else finditer_at p (Suc i) ys)"
  by (simp add: finditer_at.simps [of p i "c # ys"])

text \<open>A property of every match that \<open>finditer_at\<close> lists, from the property of one match.\<close>

lemma finditer_at_all:
  assumes step: "\<And>i s gs r. match_here p s = Some (gs, r) \<Longrightarrow>
      Q i \<lparr>start = i, stop = i + (length s - length r), groups = gs\<rparr>"
    and mono: "\<And>i j m. Q j m \<Longrightarrow> i \<le> j \<Longrightarrow> Q i m"
  shows "\<forall>m\<in>set (finditer_at p i s). Q i m"
proof (induction "length s" arbitrary: s i rule: less_induct)
  case less
  show ?case
  proof (cases s)
    case Nil
    show ?thesis
    proof (cases "match_here p []")
      case None
      with Nil show ?thesis by (simp add: finditer_at_Nil)
    next
      case (Some a)
      obtain gs r where a: "a = (gs, r)" by (cases a)
      from step [of "[]" gs r i] Some a Nil show ?thesis by (simp add: finditer_at_Nil)
    qed
  next
    case (Cons c ys)
    show ?thesis
    proof (cases "match_here p s")
      case None
      have "\<forall>m\<in>set (finditer_at p (Suc i) ys). Q (Suc i) m"
        using less [of ys "Suc i"] Cons by simp
      then have "\<forall>m\<in>set (finditer_at p (Suc i) ys). Q i m"
        using mono [of "Suc i" _ i] by auto
      with None Cons show ?thesis by (simp add: finditer_at_None)
    next
      case (Some a)
      obtain gs r where a: "a = (gs, r)" by (cases a)
      have first: "Q i \<lparr>start = i, stop = i + (length s - length r), groups = gs\<rparr>"
        using step Some a by simp
      show ?thesis
      proof (cases "length r < length s")
        case True
        have "\<forall>m\<in>set (finditer_at p (i + (length s - length r)) r).
            Q (i + (length s - length r)) m"
          using less [of r] True by simp
        then have "\<forall>m\<in>set (finditer_at p (i + (length s - length r)) r). Q i m"
          using mono [of "i + (length s - length r)" _ i] by auto
        with first Some a Cons True show ?thesis by (simp add: finditer_at_Some)
      next
        case False
        have "\<forall>m\<in>set (finditer_at p (Suc i) ys). Q (Suc i) m"
          using less [of ys "Suc i"] Cons by simp
        then have "\<forall>m\<in>set (finditer_at p (Suc i) ys). Q i m"
          using mono [of "Suc i" _ i] by auto
        with first Some a Cons False show ?thesis by (simp add: finditer_at_Some)
      qed
    qed
  qed
qed

lemma finditer_at_groups:
  "m \<in> set (finditer_at p i s) \<Longrightarrow> length (groups m) = count_groups p"
  using finditer_at_all [of p "\<lambda>i m. length (groups m) = count_groups p" i s]
  by (simp add: match_here_groups)

lemma finditer_at_bounds:
  "m \<in> set (finditer_at p i s) \<Longrightarrow> i \<le> start m \<and> start m \<le> stop m"
  using finditer_at_all [of p "\<lambda>i m. i \<le> start m \<and> start m \<le> stop m" i s]
  by simp

lemma finditer_at_sorted:
  "sorted_wrt (\<lambda>a b. stop a \<le> start b) (finditer_at p i s)"
proof (induction "length s" arbitrary: s i rule: less_induct)
  case less
  show ?case
  proof (cases s)
    case Nil
    then show ?thesis by (simp add: finditer_at_Nil split: option.splits)
  next
    case (Cons c ys)
    have tail: "sorted_wrt (\<lambda>a b. stop a \<le> start b) (finditer_at p (Suc i) ys)"
      using less [of ys "Suc i"] Cons by simp
    show ?thesis
    proof (cases "match_here p s")
      case None
      with tail Cons show ?thesis by (simp add: finditer_at_None)
    next
      case (Some a)
      obtain gs r where a: "a = (gs, r)" by (cases a)
      from match_here_rest [of p s gs r] Some a have le: "length r \<le> length s" by simp
      show ?thesis
      proof (cases "length r < length s")
        case True
        have "sorted_wrt (\<lambda>a b. stop a \<le> start b) (finditer_at p (i + (length s - length r)) r)"
          using less [of r] True by simp
        moreover have "\<forall>m\<in>set (finditer_at p (i + (length s - length r)) r).
            i + (length s - length r) \<le> start m"
          using finditer_at_bounds by blast
        ultimately show ?thesis using Some a True Cons by (simp add: finditer_at_Some)
      next
        case False
        with le have eq: "length r = length s" by simp
        have "\<forall>m\<in>set (finditer_at p (Suc i) ys). Suc i \<le> start m"
          using finditer_at_bounds by blast
        then have "\<forall>m\<in>set (finditer_at p (Suc i) ys). i \<le> start m" by auto
        with tail Some a eq Cons show ?thesis by (simp add: finditer_at_Some)
      qed
    qed
  qed
qed

lemma group_first: "groups m = g # gs \<Longrightarrow> group m (Suc 0) = Inr g"
  by (simp add: group_def)

lemma count_groups_patterns:
  "count_groups gen_pattern = 1" "count_groups tier_pattern = 1"
  "count_groups winner_pattern = 1" "count_groups rule_pattern = 1"
  "count_groups poke_pattern = 2"
  by (simp_all add: count_groups_def gen_pattern_def tier_pattern_def winner_pattern_def
      rule_pattern_def poke_pattern_def)

lemma length_one: "length xs = Suc 0 \<Longrightarrow> \<exists>x. xs = [x]"
  by (cases xs) auto

lemma length_two: "length xs = 2 \<Longrightarrow> \<exists>x y. xs = [x, y]"
  by (cases xs; cases "tl xs") auto

lemma re_search_one_group:
  assumes "count_groups p = 1" and "re_search p s = Some m"
  shows "\<exists>g. groups m = [g]"
proof -
  from assms(2) search_at_Some [of p 0 s m] obtain k r where
    "match_here p (drop k s) = Some (groups m, r)" by (auto simp: re_search_def)
  from match_here_groups [OF this] assms(1) show ?thesis by (simp add: length_one)
qed

lemma digits_value_decimal:
  "\<forall>c\<in>set g. isdecimal c \<Longrightarrow> \<exists>n. digits_value acc g = Some n"
  by (induction g arbitrary: acc) (auto simp: isdecimal_def)

lemma py_int_digits:
  "g \<noteq> [] \<Longrightarrow> \<forall>c\<in>set g. isdecimal c \<Longrightarrow> length g \<le> int_max_str_digits
   \<Longrightarrow> \<exists>n. py_int g = Inr n"
  using digits_value_decimal [of g 0] by (auto simp: py_int_def)

lemma py_int_long: "int_max_str_digits < length g \<Longrightarrow> py_int g = Inl ValueError"
  by (simp add: py_int_def)

lemma match_lit_class_group:
  assumes "match_here (map Lit l @ [Plus C]) t = Some (gs, r)"
  shows "\<exists>g. gs = [g] \<and> g \<noteq> [] \<and> (\<forall>c\<in>set g. C c)"
proof -
  from assms have "gs = [takeWhile C (drop (length l) t)]"
    and "takeWhile C (drop (length l) t) \<noteq> []"
    by (auto simp only: match_here_lit_class split: if_splits)
  moreover have "\<forall>c\<in>set (takeWhile C (drop (length l) t)). C c"
    by (auto dest: set_takeWhileD)
  ultimately show ?thesis by blast
qed

lemma match_gen_digits:
  assumes "match_here gen_pattern t = Some (gs, r)"
  shows "\<exists>g. gs = [g] \<and> g \<noteq> [] \<and> (\<forall>c\<in>set g. isdecimal c)"
proof -
  have "match_here (map Lit ''|gen|'' @ [Plus isdecimal]) t = Some (gs, r)"
    using assms by (simp only: gen_pattern_def)
  from match_lit_class_group [OF this] show ?thesis .
qed

lemma gen_match_int:
  assumes "re_search gen_pattern s = Some m"
  shows "\<exists>g. groups m = [g] \<and> first_group gen_pattern s = Some g
           \<and> (gen_fits s \<longrightarrow> (\<exists>n. py_int g = Inr n))
           \<and> (\<not> gen_fits s \<longrightarrow> py_int g = Inl ValueError)"
proof -
  from assms search_at_Some [of gen_pattern 0 s m] obtain k r where
    "match_here gen_pattern (drop k s) = Some (groups m, r)" by (auto simp: re_search_def)
  from match_gen_digits [OF this] obtain g where g: "groups m = [g]" "g \<noteq> []"
    "\<forall>c\<in>set g. isdecimal c" by blast
  from g(1) assms have f: "first_group gen_pattern s = Some g" by (simp add: first_group_def)
  then have fits: "gen_fits s \<longleftrightarrow> length g \<le> int_max_str_digits" by (simp add: gen_fits_def)
  from fits py_int_digits [OF g(2,3)] have "gen_fits s \<longrightarrow> (\<exists>n. py_int g = Inr n)" by simp
  moreover from fits py_int_long [of g] have "\<not> gen_fits s \<longrightarrow> py_int g = Inl ValueError"
    by simp
  ultimately show ?thesis using g(1) f by blast
qed

lemma gen_fits_absent: "re_search gen_pattern s = None \<Longrightarrow> gen_fits s"
  by (simp add: gen_fits_def first_group_def)

lemma basic_step_gen:
  "basic_step s (''gen'', gen_pattern) parsed =
     (if gen_fits s
      then Inr (case re_search gen_pattern s of None \<Rightarrow> parsed
                | Some m \<Rightarrow> parsed\<lparr>gen := gen_value s\<rparr>)
      else Inl ValueError)"
proof (cases "re_search gen_pattern s")
  case None
  then show ?thesis by (simp add: basic_step_def gen_fits_absent)
next
  case (Some m)
  from gen_match_int [OF Some] obtain g where g: "groups m = [g]"
    "first_group gen_pattern s = Some g"
    "gen_fits s \<longrightarrow> (\<exists>n. py_int g = Inr n)" "\<not> gen_fits s \<longrightarrow> py_int g = Inl ValueError"
    by blast
  show ?thesis
  proof (cases "gen_fits s")
    case True
    with g(3) obtain n where "py_int g = Inr n" by blast
    with Some g(1,2) True show ?thesis
      by (simp add: basic_step_def group_first gen_value_def)
  next
    case False
    with g(4) have "py_int g = Inl ValueError" by blast
    with Some g(1) False show ?thesis by (simp add: basic_step_def group_first)
  qed
qed

lemma basic_step_tier:
  "basic_step s (''tier'', tier_pattern) parsed =
     Inr (case re_search tier_pattern s of None \<Rightarrow> parsed
          | Some m \<Rightarrow> parsed\<lparr>tier := map_option strip (first_group tier_pattern s)\<rparr>)"
proof (cases "re_search tier_pattern s")
  case None
  then show ?thesis by (simp add: basic_step_def)
next
  case (Some m)
  from re_search_one_group [OF count_groups_patterns(2) Some] obtain g where "groups m = [g]" ..
  with Some show ?thesis by (simp add: basic_step_def group_first first_group_def)
qed

lemma basic_step_winner:
  "basic_step s (''winner'', winner_pattern) parsed =
     Inr (case re_search winner_pattern s of None \<Rightarrow> parsed
          | Some m \<Rightarrow> parsed\<lparr>winner := map_option strip (first_group winner_pattern s)\<rparr>)"
proof (cases "re_search winner_pattern s")
  case None
  then show ?thesis by (simp add: basic_step_def)
next
  case (Some m)
  from re_search_one_group [OF count_groups_patterns(3) Some] obtain g where "groups m = [g]" ..
  with Some show ?thesis by (simp add: basic_step_def group_first first_group_def)
qed

lemma unset_fields:
  "re_search gen_pattern s = None \<Longrightarrow> gen_value s = None"
  "re_search p s = None \<Longrightarrow> first_group p s = None"
  by (simp_all add: gen_value_def first_group_def)

lemma basic_loop_patterns:
  "basic_loop s patterns (initial_parsed d s) =
     (if gen_fits s
      then Inr ((initial_parsed d s)\<lparr>gen := gen_value s,
            tier := map_option strip (first_group tier_pattern s),
            winner := map_option strip (first_group winner_pattern s)\<rparr>)
      else Inl ValueError)"
  by (simp add: patterns_def basic_step_gen basic_step_tier basic_step_winner unset_fields
      initial_parsed_def split: option.splits)

lemma poke_step_eq:
  assumes "groups m = [player, g]" and "poke parsed = [''p1'' \<mapsto> a, ''p2'' \<mapsto> b]"
  shows "poke_step m parsed =
     Inr (parsed\<lparr>poke := [''p1'' \<mapsto> a @ roster ''p1'' [m], ''p2'' \<mapsto> b @ roster ''p2'' [m]]\<rparr>)"
proof -
  have g1: "group m 1 = Inr player" and g2: "group m 2 = Inr g"
    using assms(1) by (simp_all add: group_def)
  consider "player = ''p1''" | "player = ''p2''" | "player \<noteq> ''p1''" "player \<noteq> ''p2''" by blast
  then show ?thesis
  proof cases
    case 1
    have "[''p1'' \<mapsto> a, ''p2'' \<mapsto> b](''p1'' \<mapsto> a @ [strip g]) = [''p1'' \<mapsto> a @ [strip g], ''p2'' \<mapsto> b]"
      by (rule ext) simp
    with 1 assms g1 g2 show ?thesis by (simp add: poke_step_def roster_def)
  next
    case 2
    with assms g1 g2 show ?thesis by (simp add: poke_step_def roster_def)
  next
    case 3
    have "parsed\<lparr>poke := [''p1'' \<mapsto> a, ''p2'' \<mapsto> b]\<rparr> = parsed" using assms(2) by simp
    with 3 assms g1 g2 show ?thesis by (simp add: poke_step_def roster_def)
  qed
qed

lemma roster_Cons: "roster slot (m # ms) = roster slot [m] @ roster slot ms"
  by (simp add: roster_def)

lemma poke_loop_eq:
  assumes "\<forall>m\<in>set ms. length (groups m) = 2" and "poke parsed = [''p1'' \<mapsto> a, ''p2'' \<mapsto> b]"
  shows "poke_loop ms parsed =
     Inr (parsed\<lparr>poke := [''p1'' \<mapsto> a @ roster ''p1'' ms, ''p2'' \<mapsto> b @ roster ''p2'' ms]\<rparr>)"
  using assms
proof (induction ms arbitrary: parsed a b)
  case Nil
  then show ?case by (simp add: roster_def)
next
  case (Cons m ms)
  from Cons.prems(1) length_two [of "groups m"] obtain player g where m: "groups m = [player, g]"
    by auto
  let ?parsed' = "parsed\<lparr>poke := [''p1'' \<mapsto> a @ roster ''p1'' [m], ''p2'' \<mapsto> b @ roster ''p2'' [m]]\<rparr>"
  have step: "poke_step m parsed = Inr ?parsed'" by (rule poke_step_eq [OF m Cons.prems(2)])
  have p': "poke ?parsed' = [''p1'' \<mapsto> a @ roster ''p1'' [m], ''p2'' \<mapsto> b @ roster ''p2'' [m]]"
    by simp
  have rest: "\<forall>m\<in>set ms. length (groups m) = 2" using Cons.prems(1) by simp
  have "poke_loop ms ?parsed' =
     Inr (?parsed'\<lparr>poke := [''p1'' \<mapsto> (a @ roster ''p1'' [m]) @ roster ''p1'' ms,
                            ''p2'' \<mapsto> (b @ roster ''p2'' [m]) @ roster ''p2'' ms]\<rparr>)"
    by (rule Cons.IH [OF rest p'])
  then have "poke_loop (m # ms) parsed =
     Inr (?parsed'\<lparr>poke := [''p1'' \<mapsto> (a @ roster ''p1'' [m]) @ roster ''p1'' ms,
                            ''p2'' \<mapsto> (b @ roster ''p2'' [m]) @ roster ''p2'' ms]\<rparr>)"
    using step by (simp only: poke_loop.simps sum.case)
  also have "\<dots> = Inr (parsed\<lparr>poke := [''p1'' \<mapsto> (a @ roster ''p1'' [m]) @ roster ''p1'' ms,
                            ''p2'' \<mapsto> (b @ roster ''p2'' [m]) @ roster ''p2'' ms]\<rparr>)"
    by simp
  also have "(a @ roster ''p1'' [m]) @ roster ''p1'' ms = a @ roster ''p1'' (m # ms)"
    by (simp add: roster_Cons [of _ m ms])
  also have "(b @ roster ''p2'' [m]) @ roster ''p2'' ms = b @ roster ''p2'' (m # ms)"
    by (simp add: roster_Cons [of _ m ms])
  finally show ?case .
qed

lemma rule_list_eq:
  "\<forall>m\<in>set ms. length (groups m) = 1 \<Longrightarrow> rule_list ms = Inr (rule_texts ms)"
proof (induction ms)
  case Nil
  then show ?case by (simp add: rule_texts_def)
next
  case (Cons m ms)
  from Cons.prems length_one [of "groups m"] obtain g where "groups m = [g]" by auto
  with Cons show ?case by (simp add: rule_texts_def group_first)
qed

lemma gr_rule_loop_eq:
  "\<forall>m\<in>set ms. length (groups m) = 1 \<Longrightarrow>
   gr_rule_loop ms parsed = Inr (parsed\<lparr>rules := rules parsed @ rule_texts ms\<rparr>)"
proof (induction ms arbitrary: parsed)
  case Nil
  then show ?case by (simp add: rule_texts_def)
next
  case (Cons m ms)
  from Cons.prems length_one [of "groups m"] obtain g where "groups m = [g]" by auto
  with Cons show ?case by (simp add: rule_texts_def group_first)
qed

lemma gr_poke_step_eq: "gr_poke_step m parsed = poke_step m parsed"
  by (auto simp: gr_poke_step_def poke_step_def Let_def split: sum.splits)

lemma gr_poke_loop_eq: "gr_poke_loop ms parsed = poke_loop ms parsed"
  by (induction ms arbitrary: parsed) (simp_all add: gr_poke_step_eq split: sum.splits)

lemma finditer_poke_groups: "\<forall>m\<in>set (re_finditer poke_pattern s). length (groups m) = 2"
  by (simp add: re_finditer_def finditer_at_groups count_groups_patterns)

lemma finditer_rule_groups: "\<forall>m\<in>set (re_finditer rule_pattern s). length (groups m) = 1"
  by (simp add: re_finditer_def finditer_at_groups count_groups_patterns)

lemma parse_replay_data_eq:
  assumes "gen_fits s"
  shows "parse_replay_data (JStr s) (JObj d) = Inr (parsed_of d s)"
proof -
  let ?p1 = "(initial_parsed d s)\<lparr>gen := gen_value s,
            tier := map_option strip (first_group tier_pattern s),
            winner := map_option strip (first_group winner_pattern s)\<rparr>"
  have bl: "basic_loop s patterns (initial_parsed d s) = Inr ?p1"
    using assms by (simp only: basic_loop_patterns if_True)
  have "poke ?p1 = [''p1'' \<mapsto> [], ''p2'' \<mapsto> []]" by (simp add: initial_parsed_def)
  from poke_loop_eq [OF finditer_poke_groups this]
  have pl: "poke_loop (re_finditer poke_pattern s) ?p1 =
      Inr (?p1\<lparr>poke := [''p1'' \<mapsto> [] @ roster ''p1'' (re_finditer poke_pattern s),
                        ''p2'' \<mapsto> [] @ roster ''p2'' (re_finditer poke_pattern s)]\<rparr>)" .
  have "parse_replay_data (JStr s) (JObj d) =
      Inr (?p1\<lparr>poke := [''p1'' \<mapsto> [] @ roster ''p1'' (re_finditer poke_pattern s),
                        ''p2'' \<mapsto> [] @ roster ''p2'' (re_finditer poke_pattern s)],
               rules := rule_texts (re_finditer rule_pattern s), metadata := metadata_of d\<rparr>)"
    by (simp only: parse_replay_data_def json.case bl sum.case pl
        rule_list_eq [OF finditer_rule_groups])
  also have "\<dots> = Inr (parsed_of d s)" by (simp add: parsed_of_def initial_parsed_def)
  finally show ?thesis .
qed

lemma parse_replay_data_long:
  assumes "\<not> gen_fits s"
  shows "parse_replay_data (JStr s) (JObj d) = Inl ValueError"
proof -
  have "basic_loop s patterns (initial_parsed d s) = Inl ValueError"
    using assms by (simp only: basic_loop_patterns if_False)
  then show ?thesis by (simp only: parse_replay_data_def json.case sum.case)
qed

lemma gr_gen_eq:
  "gr_gen s parsed =
     (if gen_fits s
      then Inr (case re_search gen_pattern s of None \<Rightarrow> parsed
                | Some m \<Rightarrow> parsed\<lparr>gen := gen_value s\<rparr>)
      else Inl ValueError)"
proof (cases "re_search gen_pattern s")
  case None
  then show ?thesis by (simp add: gr_gen_def gen_fits_absent)
next
  case (Some m)
  from gen_match_int [OF Some] obtain g where g: "groups m = [g]"
    "first_group gen_pattern s = Some g"
    "gen_fits s \<longrightarrow> (\<exists>n. py_int g = Inr n)" "\<not> gen_fits s \<longrightarrow> py_int g = Inl ValueError"
    by blast
  show ?thesis
  proof (cases "gen_fits s")
    case True
    with g(3) obtain n where "py_int g = Inr n" by blast
    with Some g(1,2) True show ?thesis
      by (simp add: gr_gen_def group_first gen_value_def)
  next
    case False
    with g(4) have "py_int g = Inl ValueError" by blast
    with Some g(1) False show ?thesis by (simp add: gr_gen_def group_first)
  qed
qed

lemma gr_tier_eq:
  "gr_tier s parsed =
     Inr (case re_search tier_pattern s of None \<Rightarrow> parsed
          | Some m \<Rightarrow> parsed\<lparr>tier := map_option strip (first_group tier_pattern s)\<rparr>)"
proof (cases "re_search tier_pattern s")
  case None
  then show ?thesis by (simp add: gr_tier_def)
next
  case (Some m)
  from re_search_one_group [OF count_groups_patterns(2) Some] obtain g where "groups m = [g]" ..
  with Some show ?thesis by (simp add: gr_tier_def group_first first_group_def)
qed

lemma gr_winner_eq:
  "gr_winner s parsed =
     Inr (case re_search winner_pattern s of None \<Rightarrow> parsed
          | Some m \<Rightarrow> parsed\<lparr>winner := map_option strip (first_group winner_pattern s)\<rparr>)"
proof (cases "re_search winner_pattern s")
  case None
  then show ?thesis by (simp add: gr_winner_def)
next
  case (Some m)
  from re_search_one_group [OF count_groups_patterns(3) Some] obtain g where "groups m = [g]" ..
  with Some show ?thesis by (simp add: gr_winner_def group_first first_group_def)
qed

lemma get_replay_parse_eq:
  assumes "get d ''log'' (JStr []) = JStr s" and fits: "gen_fits s"
  shows "get_replay_parse (Some (JObj d)) = Inr (parsed_of d s)"
proof -
  let ?p2 = "(initial_parsed d s)\<lparr>gen := gen_value s,
            tier := map_option strip (first_group tier_pattern s)\<rparr>"
  have "poke ?p2 = [''p1'' \<mapsto> [], ''p2'' \<mapsto> []]" by (simp add: initial_parsed_def)
  from poke_loop_eq [OF finditer_poke_groups this]
  have pl: "poke_loop (re_finditer poke_pattern s) ?p2 =
      Inr (?p2\<lparr>poke := [''p1'' \<mapsto> [] @ roster ''p1'' (re_finditer poke_pattern s),
                        ''p2'' \<mapsto> [] @ roster ''p2'' (re_finditer poke_pattern s)]\<rparr>)" .
  have g: "gr_gen s (initial_parsed d s) = Inr ((initial_parsed d s)\<lparr>gen := gen_value s\<rparr>)"
    using fits by (simp add: gr_gen_eq unset_fields initial_parsed_def split: option.splits)
  have t: "gr_tier s ((initial_parsed d s)\<lparr>gen := gen_value s\<rparr>) = Inr ?p2"
    by (simp add: gr_tier_eq unset_fields initial_parsed_def split: option.splits)
  let ?p4 = "?p2\<lparr>poke := [''p1'' \<mapsto> [] @ roster ''p1'' (re_finditer poke_pattern s),
                        ''p2'' \<mapsto> [] @ roster ''p2'' (re_finditer poke_pattern s)],
               rules := rule_texts (re_finditer rule_pattern s)\<rparr>"
  have r: "gr_rule_loop (re_finditer rule_pattern s)
      (?p2\<lparr>poke := [''p1'' \<mapsto> [] @ roster ''p1'' (re_finditer poke_pattern s),
                        ''p2'' \<mapsto> [] @ roster ''p2'' (re_finditer poke_pattern s)]\<rparr>) = Inr ?p4"
    by (simp add: gr_rule_loop_eq [OF finditer_rule_groups] initial_parsed_def)
  have w: "gr_winner s ?p4 =
      Inr (?p4\<lparr>winner := map_option strip (first_group winner_pattern s)\<rparr>)"
    by (simp add: gr_winner_eq unset_fields initial_parsed_def split: option.splits)
  have "get_replay_parse (Some (JObj d)) =
      Inr (?p4\<lparr>winner := map_option strip (first_group winner_pattern s),
               metadata := metadata_of d\<rparr>)"
    by (simp only: get_replay_parse_def option.case json.case assms(1) g t sum.case
        gr_poke_loop_eq pl r w)
  also have "\<dots> = Inr (parsed_of d s)" by (simp add: parsed_of_def initial_parsed_def)
  finally show ?thesis .
qed

lemma get_replay_parse_long:
  assumes "get d ''log'' (JStr []) = JStr s" and "\<not> gen_fits s"
  shows "get_replay_parse (Some (JObj d)) = Inl ValueError"
proof -
  have "gr_gen s (initial_parsed d s) = Inl ValueError"
    using assms(2) by (simp only: gr_gen_eq if_False)
  then show ?thesis
    by (simp only: get_replay_parse_def option.case json.case assms(1) sum.case)
qed

declare search_at.simps [simp del]

lemma finditer_at_occurs:
  "\<forall>m\<in>set (finditer_at p i s).
     \<exists>k\<le>length s. start m = i + k \<and> map_option fst (match_here p (drop k s)) = Some (groups m)"
proof (induction "length s" arbitrary: s i rule: less_induct)
  case less
  show ?case
  proof (cases s)
    case Nil
    show ?thesis
    proof (cases "match_here p []")
      case None
      with Nil show ?thesis by (simp add: finditer_at_Nil)
    next
      case (Some a)
      obtain gs r where a: "a = (gs, r)" by (cases a)
      with Some Nil show ?thesis by (simp add: finditer_at_Nil)
    qed
  next
    case (Cons c ys)
    have tail: "\<forall>m\<in>set (finditer_at p (Suc i) ys).
        \<exists>k\<le>length s. start m = i + k \<and> map_option fst (match_here p (drop k s)) = Some (groups m)"
    proof
      fix m assume "m \<in> set (finditer_at p (Suc i) ys)"
      with less [of ys "Suc i"] Cons obtain k where "k \<le> length ys" "start m = Suc i + k"
        "map_option fst (match_here p (drop k ys)) = Some (groups m)" by auto
      with Cons show "\<exists>k\<le>length s. start m = i + k \<and>
          map_option fst (match_here p (drop k s)) = Some (groups m)"
        by (intro exI [of _ "Suc k"]) simp
    qed
    show ?thesis
    proof (cases "match_here p s")
      case None
      with tail Cons show ?thesis by (simp add: finditer_at_None)
    next
      case (Some a)
      obtain gs r where a: "a = (gs, r)" by (cases a)
      from match_here_rest [of p s gs r] Some a
      have le: "length r \<le> length s" and r: "r = drop (length s - length r) s" by simp_all
      have first: "\<exists>k\<le>length s. start \<lparr>start = i, stop = i + (length s - length r), groups = gs\<rparr> = i + k
          \<and> map_option fst (match_here p (drop k s)) =
              Some (groups \<lparr>start = i, stop = i + (length s - length r), groups = gs\<rparr>)"
        using Some a by (intro exI [of _ 0]) simp
      show ?thesis
      proof (cases "length r < length s")
        case True
        have "\<forall>m\<in>set (finditer_at p (i + (length s - length r)) r).
          \<exists>k\<le>length s. start m = i + k \<and> map_option fst (match_here p (drop k s)) = Some (groups m)"
        proof
          fix m assume "m \<in> set (finditer_at p (i + (length s - length r)) r)"
          with less [of r "i + (length s - length r)"] True obtain k where k: "k \<le> length r"
            "start m = i + (length s - length r) + k"
            "map_option fst (match_here p (drop k r)) = Some (groups m)" by auto
          have "drop k r = drop (k + (length s - length r)) s"
            using r by (metis drop_drop)
          then have mm: "map_option fst (match_here p (drop (k + (length s - length r)) s)) =
              Some (groups m)" using k(3) by simp
          have kk: "k + (length s - length r) \<le> length s" using k(1) le by arith
          have st: "start m = i + (k + (length s - length r))" using k(2) by arith
          from kk st mm show "\<exists>k\<le>length s. start m = i + k \<and>
              map_option fst (match_here p (drop k s)) = Some (groups m)"
            by blast
        qed
        with first Some a Cons True show ?thesis by (simp add: finditer_at_Some)
      next
        case False
        with first tail Some a Cons show ?thesis by (simp add: finditer_at_Some)
      qed
    qed
  qed
qed

lemma finditer_occurs:
  "m \<in> set (re_finditer p s) \<Longrightarrow> occurs p s (start m) (groups m)"
  using finditer_at_occurs [of p 0 s] by (auto simp: re_finditer_def occurs_def)

lemma none_before_iff: "none_before p s k \<longleftrightarrow> (\<forall>j<k. match_here p (drop j s) = None)"
  by (auto simp: none_before_def list_all_iff)

lemma first_group_leftmost:
  assumes "occurs p s k (g # gs)" and "none_before p s k"
  shows "first_group p s = Some g"
proof -
  from assms(1) obtain r where k: "k \<le> length s" and m: "match_here p (drop k s) = Some (g # gs, r)"
    by (auto simp: occurs_def)
  from assms(2) have "\<forall>j<k. match_here p (drop j s) = None" by (simp add: none_before_iff)
  from search_at_leftmost [OF k m this, of 0] show ?thesis
    by (simp add: first_group_def re_search_def)
qed



lemma result_parsed_of:
  assumes "parse_replay_data (JStr s) (JObj d) = Inr r \<or>
    (get d ''log'' (JStr []) = JStr s \<and> get_replay_parse (Some (JObj d)) = Inr r)"
  shows "r = parsed_of d s" and "gen_fits s"
proof -
  show fits: "gen_fits s"
  proof (rule ccontr)
    assume "\<not> gen_fits s"
    with assms parse_replay_data_long [of s d] get_replay_parse_long [of d s] show False
      by auto
  qed
  with assms show "r = parsed_of d s"
    by (auto simp: parse_replay_data_eq get_replay_parse_eq)
qed

lemma roster_known: "roster slot (filter known_slot ms) = roster slot ms" if "slot \<in> {''p1'', ''p2''}"
proof (induction ms)
  case Nil
  then show ?case by simp
next
  case (Cons m ms)
  have "roster slot [m] = [] " if "\<not> known_slot m"
    using that \<open>slot \<in> {''p1'', ''p2''}\<close>
    by (auto simp: roster_def known_slot_def split: list.splits)
  with Cons show ?case
    by (simp add: roster_Cons [of _ m "filter known_slot ms"] roster_Cons [of _ m ms])
qed

lemma patterns_start:
  "\<exists>p. gen_pattern = Lit CHR ''|'' # p" "\<exists>p. tier_pattern = Lit CHR ''|'' # p"
  "\<exists>p. winner_pattern = Lit CHR ''|'' # p" "\<exists>p. poke_pattern = Lit CHR ''|'' # p"
  "\<exists>p. rule_pattern = Lit CHR ''|'' # p"
  by (simp_all add: gen_pattern_def tier_pattern_def winner_pattern_def poke_pattern_def
      rule_pattern_def)

lemma first_group_empty: "\<exists>q. p = Lit c # q \<Longrightarrow> first_group p [] = None"
  by (auto simp: first_group_def re_search_def search_at.simps [of _ _ "[]"])

lemma finditer_empty: "\<exists>q. p = Lit c # q \<Longrightarrow> re_finditer p [] = []"
  by (auto simp: re_finditer_def finditer_at_Nil)

lemma parsed_of_empty:
  "parsed_of d [] =
     \<lparr>id_field = get d ''id'' JNull,
      format_field = get d ''format'' JNull,
      players = get d ''players'' JNull,
      gen = None, tier = None,
      poke = [''p1'' \<mapsto> [], ''p2'' \<mapsto> []],
      winner = None, rules = [],
      metadata = metadata_of d,
      full_log = []\<rparr>"
  by (simp add: parsed_of_def gen_value_def first_group_empty [OF patterns_start(1)]
      first_group_empty [OF patterns_start(2)] first_group_empty [OF patterns_start(3)]
      finditer_empty [OF patterns_start(4)] finditer_empty [OF patterns_start(5)]
      roster_def rule_texts_def)

lemma gen_fits_empty: "gen_fits []"
  by (simp add: gen_fits_def first_group_empty [OF patterns_start(1)])

text \<open>
  Every offset at which the pattern occurs is the start of a listed match or lies inside
  one: the scan skips an occurrence only when an earlier match has consumed its start.
\<close>

lemma finditer_at_covers:
  "k \<le> length s \<Longrightarrow> match_here p (drop k s) \<noteq> None \<Longrightarrow>
   \<exists>m\<in>set (finditer_at p i s). start m \<le> i + k \<and> (i + k = start m \<or> i + k < stop m)"
proof (induction "length s" arbitrary: s i k rule: less_induct)
  case less
  show ?case
  proof (cases "match_here p s")
    case None
    with less.prems obtain k' where k': "k = Suc k'" by (cases k) auto
    with less.prems obtain c ys where s: "s = c # ys" by (cases s) auto
    from less.prems k' s have "k' \<le> length ys" "match_here p (drop k' ys) \<noteq> None" by simp_all
    from less.hyps [OF _ this, of "Suc i"] s
    obtain m where "m \<in> set (finditer_at p (Suc i) ys)" "start m \<le> Suc i + k'"
      "Suc i + k' = start m \<or> Suc i + k' < stop m" by auto
    with None s k' show ?thesis by (auto simp: finditer_at_None)
  next
    case (Some a)
    obtain gs r where a: "a = (gs, r)" by (cases a)
    from match_here_rest [of p s gs r] Some a
    have le: "length r \<le> length s" and r: "r = drop (length s - length r) s" by simp_all
    let ?m = "\<lparr>start = i, stop = i + (length s - length r), groups = gs\<rparr>"
    show ?thesis
    proof (cases s)
      case Nil
      with less.prems Some a show ?thesis by (simp add: finditer_at_Nil)
    next
      case (Cons c ys)
      have hd: "?m \<in> set (finditer_at p i s)" using Some a Cons by (simp add: finditer_at_Some)
      show ?thesis
      proof (cases "k < length s - length r \<or> k = 0")
        case True
        then have "start ?m \<le> i + k \<and> (i + k = start ?m \<or> i + k < stop ?m)" by auto
        with hd show ?thesis by blast
      next
        case False
        then have kpos: "0 < k" and kn: "length s - length r \<le> k" by auto
        show ?thesis
        proof (cases "length r < length s")
          case True
          let ?n = "length s - length r"
          have "drop (k - ?n) r = drop k s"
            using r kn by (metis drop_drop le_add_diff_inverse2)
          with less.prems have occ: "match_here p (drop (k - ?n) r) \<noteq> None" by simp
          have bound: "k - ?n \<le> length r" using less.prems(1) le by arith
          from less.hyps [OF True bound occ, of "i + ?n"]
          obtain m where m: "m \<in> set (finditer_at p (i + ?n) r)" "start m \<le> i + ?n + (k - ?n)"
            "i + ?n + (k - ?n) = start m \<or> i + ?n + (k - ?n) < stop m" by auto
          have "i + ?n + (k - ?n) = i + k" using kn by arith
          with m have "start m \<le> i + k" "i + k = start m \<or> i + k < stop m" by simp_all
          moreover have "m \<in> set (finditer_at p i s)"
            using m(1) Some a Cons True by (simp add: finditer_at_Some)
          ultimately show ?thesis by blast
        next
          case False
          from kpos obtain k' where k': "k = Suc k'" by (cases k) auto
          from less.prems k' Cons have "k' \<le> length ys" "match_here p (drop k' ys) \<noteq> None"
            by simp_all
          from less.hyps [OF _ this, of "Suc i"] Cons
          obtain m where m: "m \<in> set (finditer_at p (Suc i) ys)" "start m \<le> Suc i + k'"
            "Suc i + k' = start m \<or> Suc i + k' < stop m" by auto
          have "m \<in> set (finditer_at p i s)"
            using m(1) Some a Cons False by (simp add: finditer_at_Some)
          with m k' show ?thesis by auto
        qed
      qed
    qed
  qed
qed

lemma finditer_covers:
  assumes "occurs p s k gs"
  shows "\<exists>m\<in>set (re_finditer p s). start m \<le> k \<and> (k = start m \<or> k < stop m)"
proof -
  from assms have "k \<le> length s" "match_here p (drop k s) \<noteq> None"
    by (auto simp: occurs_def)
  from finditer_at_covers [OF this, of 0] show ?thesis by (simp add: re_finditer_def)
qed

lemma poke_parsed_of:
  "poke (parsed_of d s) = [''p1'' \<mapsto> roster ''p1'' (re_finditer poke_pattern s),
                           ''p2'' \<mapsto> roster ''p2'' (re_finditer poke_pattern s)]"
  by (simp add: parsed_of_def)

lemma poke_step_unknown:
  assumes "groups m = [player, g]" and "player \<noteq> ''p1''" and "player \<noteq> ''p2''"
  shows "poke_step m parsed = Inr parsed"
  using assms by (simp add: poke_step_def group_def)

lemma logged_fields:
  "requests (logged ev w) = requests w" "writes (logged ev w) = writes w"
  "opened (logged ev w) = opened w" "truncated (logged ev w) = truncated w"
  "dirs (logged ev w) = dirs w" "log_lines (logged ev w) = log_lines w @ [ev]"
  by (simp_all add: logged_def)

text \<open>The \<open>try\<close> body of \<open>_download_replay\<close>, one outcome at a time.\<close>

lemma download_replay_try_writes:
  assumes "download_replay_try E url path w = (res, w')"
  shows "requests w' = requests w @ [url]
       \<and> (case res of
             Inr (Some r) \<Rightarrow> writes w' = writes w @ [(path, ReplayFile r)]
                \<and> opened w' = opened w @ [path] \<and> truncated w' = truncated w
           | _ \<Rightarrow> writes w' = writes w
                \<and> (opened w' = opened w \<or> opened w' = opened w @ [path]))"
proof (cases "net E w url")
  case (Inl e)
  with assms show ?thesis by (auto simp: download_replay_try_def download_replay_rest_def request_def)
next
  case (Inr response)
  note net = Inr
  show ?thesis
  proof (cases "status_code response \<noteq> 200")
    case True
    with assms net show ?thesis
      by (auto simp: download_replay_try_def download_replay_rest_def request_def logged_def)
  next
    case False
    show ?thesis
    proof (cases "body response")
      case None
      with assms net False show ?thesis
        by (auto simp: download_replay_try_def download_replay_rest_def request_def response_json_def)
    next
      case (Some data_dict)
      show ?thesis
      proof (cases "\<exists>d. data_dict = JObj d")
        case False
        with assms net \<open>\<not> status_code response \<noteq> 200\<close> Some show ?thesis
          by (cases data_dict)
            (auto simp: download_replay_try_def download_replay_rest_def request_def response_json_def)
      next
        case True
        then obtain d where d: "data_dict = JObj d" ..
        show ?thesis
        proof (cases "parse_replay_data (get d ''log'' (JStr [])) (JObj d)")
          case (Inl e)
          with assms net \<open>\<not> status_code response \<noteq> 200\<close> Some d show ?thesis
            by (auto simp: download_replay_try_def download_replay_rest_def request_def response_json_def)
        next
          case (Inr parsed)
          with assms net \<open>\<not> status_code response \<noteq> 200\<close> Some d show ?thesis
            by (auto simp: download_replay_try_def download_replay_rest_def request_def response_json_def
                write_file_def split: if_splits)
        qed
      qed
    qed
  qed
qed

lemma download_replay_writes:
  assumes "download_replay E url path w = (res, w')"
  shows "requests w' = requests w @ [full_url url]
       \<and> (case res of
             Some r \<Rightarrow> writes w' = writes w @ [(path, ReplayFile r)]
                \<and> opened w' = opened w @ [path] \<and> truncated w' = truncated w
           | None \<Rightarrow> writes w' = writes w
                \<and> (opened w' = opened w \<or> opened w' = opened w @ [path]))"
proof -
  obtain t w1 where t: "download_replay_try E (full_url url) path w = (t, w1)"
    by (cases "download_replay_try E (full_url url) path w")
  from download_replay_try_writes [OF t] assms t show ?thesis
    by (cases t; cases res) (auto simp: download_replay_def logged_fields split: option.splits)
qed

lemma download_replay_non200:
  assumes "net E w (full_url url) = Inr resp" and "status_code resp \<noteq> 200"
  shows "download_replay E url path w =
     (None, w\<lparr>requests := requests w @ [full_url url],
              log_lines := log_lines w @
                [Error_failed_download (full_url url) (status_code resp)]\<rparr>)"
  using assms by (simp add: download_replay_def download_replay_try_def download_replay_rest_def request_def logged_def)

lemma download_replay_success:
  assumes "net E w (full_url url) = Inr resp" and "status_code resp = 200"
    and "body resp = Some (JObj d)"
    and "parse_replay_data (get d ''log'' (JStr [])) (JObj d) = Inr r"
    and "writable E (w\<lparr>requests := requests w @ [full_url url]\<rparr>) path"
    and "dumpable E (w\<lparr>requests := requests w @ [full_url url]\<rparr>) path"
  shows "download_replay E url path w =
     (Some r, w\<lparr>requests := requests w @ [full_url url],
                opened := opened w @ [path],
                writes := writes w @ [(path, ReplayFile r)]\<rparr>)"
  using assms
  by (simp add: download_replay_def download_replay_try_def download_replay_rest_def request_def response_json_def
      write_file_def)

lemma get_replay_non200:
  assumes "net E w (full_url url) = Inr resp" and "status_code resp \<noteq> 200"
  shows "get_replay E url path w =
     (Inl UnboundLocalError,
      w\<lparr>requests := requests w @ [full_url url],
        log_lines := log_lines w @ [Print_failed (status_code resp)]\<rparr>)"
  using assms by (simp add: get_replay_def request_def logged_def get_replay_parse_def)

lemma download_replay_refused:
  assumes "net E w (full_url url) = Inr resp" and "status_code resp = 200"
    and "body resp = Some (JObj d)"
    and "parse_replay_data (get d ''log'' (JStr [])) (JObj d) = Inr r"
    and "\<not> writable E (w\<lparr>requests := requests w @ [full_url url]\<rparr>) path"
  shows "download_replay E url path w =
     (None, w\<lparr>requests := requests w @ [full_url url],
              opened := opened w @ [path],
              log_lines := log_lines w @ [Error_processing (full_url url) OSError]\<rparr>)"
  using assms
  by (simp add: download_replay_def download_replay_try_def download_replay_rest_def request_def response_json_def
      write_file_def logged_def)

lemma download_replay_cut:
  assumes "net E w (full_url url) = Inr resp" and "status_code resp = 200"
    and "body resp = Some (JObj d)"
    and "parse_replay_data (get d ''log'' (JStr [])) (JObj d) = Inr r"
    and "writable E (w\<lparr>requests := requests w @ [full_url url]\<rparr>) path"
    and "\<not> dumpable E (w\<lparr>requests := requests w @ [full_url url]\<rparr>) path"
  shows "download_replay E url path w =
     (None, w\<lparr>requests := requests w @ [full_url url],
              opened := opened w @ [path],
              truncated := truncated w @ [path],
              log_lines := log_lines w @ [Error_processing (full_url url) OSError]\<rparr>)"
  using assms
  by (simp add: download_replay_def download_replay_try_def download_replay_rest_def request_def
      response_json_def write_file_def logged_def)

lemma download_replay_raised:
  assumes "net E w (full_url url) = Inl e"
  shows "download_replay E url path w =
     (None, w\<lparr>requests := requests w @ [full_url url],
              log_lines := log_lines w @ [Error_processing (full_url url) e]\<rparr>)"
  using assms
  by (simp add: download_replay_def download_replay_try_def download_replay_rest_def request_def
      logged_def)

lemma download_replay_no_open:
  assumes "net E w (full_url url) = Inr resp"
    and "status_code resp \<noteq> 200 \<or> body resp = None
         \<or> (\<exists>v. body resp = Some v \<and> (\<forall>d. v \<noteq> JObj d))
         \<or> (\<exists>d e. body resp = Some (JObj d)
               \<and> parse_replay_data (get d ''log'' (JStr [])) (JObj d) = Inl e)"
  shows "fst (download_replay E url path w) = None
       \<and> opened (snd (download_replay E url path w)) = opened w
       \<and> writes (snd (download_replay E url path w)) = writes w
       \<and> truncated (snd (download_replay E url path w)) = truncated w"
proof (cases "status_code resp \<noteq> 200")
  case True
  with assms(1) show ?thesis by (simp add: download_replay_non200)
next
  case False
  note ok = False
  show ?thesis
  proof (cases "body resp")
    case None
    with assms(1) ok show ?thesis
      by (simp add: download_replay_def download_replay_try_def download_replay_rest_def request_def response_json_def
          logged_def)
  next
    case (Some v)
    show ?thesis
    proof (cases "\<exists>d. v = JObj d")
      case False
      with assms(1) ok Some show ?thesis
        by (cases v)
          (simp_all add: download_replay_def download_replay_try_def download_replay_rest_def request_def
            response_json_def logged_def)
    next
      case True
      then obtain d where d: "v = JObj d" ..
      with assms(2) ok Some obtain e where
        "parse_replay_data (get d ''log'' (JStr [])) (JObj d) = Inl e" by auto
      with assms(1) ok Some d show ?thesis
        by (simp add: download_replay_def download_replay_try_def download_replay_rest_def request_def
            response_json_def logged_def)
    qed
  qed
qed




lemma safe_mkdir_fields:
  assumes "safe_mkdir E directory w = (res, w')"
  shows "requests w' = requests w \<and> writes w' = writes w \<and> opened w' = opened w
       \<and> truncated w' = truncated w \<and> log_lines w' = log_lines w"
  using assms by (auto simp: safe_mkdir_def makedirs_def split: if_splits)

lemma safe_mkdir_existing:
  "path_exists directory w \<Longrightarrow> safe_mkdir E directory w = (Inr (), w)"
  by (simp add: safe_mkdir_def)

lemma safe_mkdir_creates:
  assumes "safe_mkdir E directory w = (Inr u, w')"
  shows "path_exists directory w'
       \<and> (w' = w \<or> (\<not> path_exists directory w \<and> dirs w' = dirs w \<union> set (ancestors directory)))"
  using assms
  by (auto simp: safe_mkdir_def makedirs_def path_exists_def ancestors_def split: if_splits)

lemma safe_mkdir_seq_existing:
  "path_exists directory w \<Longrightarrow> safe_mkdir_seq E directory n w = (replicate n (Inr ()), w)"
  by (induction n) (simp_all add: safe_mkdir_existing)

lemma download_ladder_non200:
  assumes "safe_mkdir E ''info'' w = (Inr (), w1)" and "safe_mkdir E ''info/all'' w1 = (Inr (), w2)"
    and "net E w2 (ladder_url format_name) = Inr resp" and "status_code resp \<noteq> 200"
  shows "download_ladder_replays E format_name w =
     (Inr (), w2\<lparr>requests := requests w2 @ [ladder_url format_name],
                log_lines := log_lines w2 @ [Error_failed_ladder (status_code resp)]\<rparr>)"
  using assms
  by (simp add: download_ladder_replays_def download_ladder_try_def request_def logged_def)

lemma worker_two_steps:
  "run_schedule E directory [0, 0] ([At_check], w) =
     (case safe_mkdir E directory w of
        (Inl e, w') \<Rightarrow> ([Raised e], w')
      | (Inr u, w') \<Rightarrow> ([Returned], w'))"
  by (auto simp: worker_step_def safe_mkdir_def makedirs_def split: if_splits)










text \<open>A log that starts with the generation pattern and \<open>n\<close> digits \<open>1\<close>.\<close>

lemma first_group_ones:
  assumes "0 < n"
  shows "first_group gen_pattern (''|gen|'' @ replicate n CHR ''1'') = Some (replicate n CHR ''1'')"
proof -
  let ?s = "''|gen|'' @ replicate n CHR ''1''"
  have d: "isdecimal CHR ''1''" by (simp add: isdecimal_def todecimal_def)
  have tw: "takeWhile isdecimal (drop (length ''|gen|'') ?s) = replicate n CHR ''1''"
    using d by (simp add: takeWhile_replicate)
  have tk: "take (length ''|gen|'') ?s = ''|gen|''" by simp
  have ne: "replicate n CHR ''1'' \<noteq> []" using assms by simp
  have "match_here (map Lit ''|gen|'' @ [Plus isdecimal]) ?s =
      Some ([replicate n CHR ''1''], dropWhile isdecimal (drop (length ''|gen|'') ?s))"
    by (simp only: match_here_lit_class tk tw ne) simp
  then have "match_here gen_pattern (drop 0 ?s) =
      Some ([replicate n CHR ''1''], dropWhile isdecimal (drop (length ''|gen|'') ?s))"
    by (simp only: gen_pattern_def drop_0)
  then have o: "occurs gen_pattern ?s 0 [replicate n CHR ''1'']"
    by (simp add: occurs_def)
  have b: "none_before gen_pattern ?s 0" by (simp add: none_before_def)
  from first_group_leftmost [OF o b] show ?thesis .
qed

lemma gen_too_long:
  assumes "int_max_str_digits < n"
  shows "\<not> gen_fits (''|gen|'' @ replicate n CHR ''1'')"
proof -
  from assms have "0 < n" by simp
  from first_group_ones [OF this] assms show ?thesis by (simp add: gen_fits_def)
qed

text \<open>Workers of \<open>_safe_mkdir\<close> under any schedule.\<close>

lemma ancestors_self: "directory \<in> set (ancestors directory)"
  by (simp add: ancestors_def)

lemma worker_step_effect:
  assumes "worker_step E directory p w = (p', w')"
  shows "w' = w \<or> (\<not> path_exists directory w
           \<and> w' = w\<lparr>dirs := dirs w \<union> set (ancestors directory)\<rparr>)"
  using assms by (auto simp: worker_step_def makedirs_def split: pc.splits if_splits)

lemma worker_step_returned:
  assumes "worker_step E directory p w = (Returned, w')" and "p \<noteq> Returned"
  shows "path_exists directory w'"
  using assms
  by (auto simp: worker_step_def makedirs_def path_exists_def ancestors_self
      split: pc.splits if_splits)

lemma run_schedule_existing:
  assumes "path_exists directory w"
    and "run_schedule E directory sched (pcs, w) = (pcs', w')"
  shows "w' = w"
  using assms(2)
proof (induction sched arbitrary: pcs)
  case Nil
  then show ?case by simp
next
  case (Cons i sched)
  show ?case
  proof (cases "i < length pcs")
    case False
    with Cons.prems have "run_schedule E directory sched (pcs, w) = (pcs', w')" by simp
    then show ?thesis by (rule Cons.IH)
  next
    case True
    obtain p1 w1 where s: "worker_step E directory (pcs ! i) w = (p1, w1)"
      by (cases "worker_step E directory (pcs ! i) w")
    from worker_step_effect [OF s] assms(1) have "w1 = w" by auto
    with Cons.prems True s
    have "run_schedule E directory sched (pcs[i := p1], w) = (pcs', w')" by simp
    then show ?thesis by (rule Cons.IH)
  qed
qed

lemma any_interleaving_one_directory:
  assumes "run_schedule E directory sched (pcs, w) = (pcs', w')"
  shows "w' = w \<or> (\<not> path_exists directory w
           \<and> w' = w\<lparr>dirs := dirs w \<union> set (ancestors directory)\<rparr>)"
  using assms
proof (induction sched arbitrary: pcs w)
  case Nil
  then show ?case by simp
next
  case (Cons i sched)
  show ?case
  proof (cases "i < length pcs")
    case False
    with Cons.prems have "run_schedule E directory sched (pcs, w) = (pcs', w')" by simp
    then show ?thesis by (rule Cons.IH)
  next
    case True
    obtain p1 w1 where s: "worker_step E directory (pcs ! i) w = (p1, w1)"
      by (cases "worker_step E directory (pcs ! i) w")
    with Cons.prems True
    have r: "run_schedule E directory sched (pcs[i := p1], w1) = (pcs', w')" by simp
    from worker_step_effect [OF s] show ?thesis
    proof
      assume "w1 = w"
      with r have "run_schedule E directory sched (pcs[i := p1], w) = (pcs', w')" by simp
      then show ?thesis by (rule Cons.IH)
    next
      assume a: "\<not> path_exists directory w
           \<and> w1 = w\<lparr>dirs := dirs w \<union> set (ancestors directory)\<rparr>"
      then have "path_exists directory w1" by (simp add: path_exists_def ancestors_self)
      from run_schedule_existing [OF this r] a show ?thesis by simp
    qed
  qed
qed

lemma returned_worker_directory_exists:
  assumes "run_schedule E directory sched (pcs, w) = (pcs', w')"
    and "\<forall>i<length pcs. pcs ! i = Returned \<longrightarrow> path_exists directory w"
  shows "length pcs' = length pcs
       \<and> (\<forall>i<length pcs'. pcs' ! i = Returned \<longrightarrow> path_exists directory w')"
  using assms
proof (induction sched arbitrary: pcs w)
  case Nil
  then show ?case by simp
next
  case (Cons i sched)
  show ?case
  proof (cases "i < length pcs")
    case False
    with Cons.prems(1) have "run_schedule E directory sched (pcs, w) = (pcs', w')" by simp
    from Cons.IH [OF this Cons.prems(2)] show ?thesis .
  next
    case True
    obtain p1 w1 where s: "worker_step E directory (pcs ! i) w = (p1, w1)"
      by (cases "worker_step E directory (pcs ! i) w")
    with Cons.prems(1) True
    have r: "run_schedule E directory sched (pcs[i := p1], w1) = (pcs', w')" by simp
    have mono: "path_exists directory w1" if "path_exists directory w"
      using worker_step_effect [OF s] that by auto
    have "\<forall>j<length (pcs[i := p1]). (pcs[i := p1]) ! j = Returned
        \<longrightarrow> path_exists directory w1"
    proof (intro allI impI)
      fix j assume j: "j < length (pcs[i := p1])" and e: "(pcs[i := p1]) ! j = Returned"
      show "path_exists directory w1"
      proof (cases "j = i")
        case False
        with j e Cons.prems(2) have "path_exists directory w" by simp
        then show ?thesis by (rule mono)
      next
        case True
        with j e have p1: "p1 = Returned" by simp
        show ?thesis
        proof (cases "pcs ! i = Returned")
          case True
          with \<open>i < length pcs\<close> Cons.prems(2) have "path_exists directory w" by simp
          then show ?thesis by (rule mono)
        next
          case False
          from s p1 have "worker_step E directory (pcs ! i) w = (Returned, w1)" by simp
          from worker_step_returned [OF this False] show ?thesis .
        qed
      qed
    qed
    from Cons.IH [OF r this] show ?thesis by simp
  qed
qed




























section \<open>The parser fails only on an overlong generation number\<close>

text \<open>
  Claim C1, as amended. For every log text whose generation number, the digits of the
  first occurrence of the generation pattern, has at most 4300 digits, and every payload
  dictionary, the parser returns a record and raises nothing, in \<open>_parse_replay_data\<close>
  and in the parsing part of \<open>get_replay\<close> (which reads the log from the payload). A
  scalar pattern that matches nowhere leaves its field unset; the identifier, format,
  players and metadata are those of the payload and the log is kept as it is. With a
  longer generation number \<open>int\<close> raises ValueError. Parsing the empty log gives unset
  \<open>gen\<close>, \<open>tier\<close> and \<open>winner\<close>, empty rosters for both slots and no rules.
\<close>

theorem parse_total_within_limit:
  "(gen_fits logText \<longrightarrow>
     (\<exists>r. parse_replay_data (JStr logText) (JObj payload) = Inr r
       \<and> (get payload ''log'' (JStr []) = JStr logText
            \<longrightarrow> get_replay_parse (Some (JObj payload)) = Inr r)
       \<and> (re_search gen_pattern logText = None \<longrightarrow> gen r = None)
       \<and> (re_search tier_pattern logText = None \<longrightarrow> tier r = None)
       \<and> (re_search winner_pattern logText = None \<longrightarrow> winner r = None)
       \<and> id_field r = get payload ''id'' JNull
       \<and> format_field r = get payload ''format'' JNull
       \<and> players r = get payload ''players'' JNull
       \<and> metadata r = metadata_of payload
       \<and> full_log r = logText))
   \<and> (\<not> gen_fits logText \<longrightarrow>
         parse_replay_data (JStr logText) (JObj payload) = Inl ValueError)
   \<and> parse_replay_data (JStr []) (JObj payload) =
       Inr \<lparr>id_field = get payload ''id'' JNull,
            format_field = get payload ''format'' JNull,
            players = get payload ''players'' JNull,
            gen = None, tier = None,
            poke = [''p1'' \<mapsto> [], ''p2'' \<mapsto> []],
            winner = None, rules = [],
            metadata = metadata_of payload,
            full_log = []\<rparr>"
proof -
  let ?r = "parsed_of payload logText"
  have first: "\<exists>r. parse_replay_data (JStr logText) (JObj payload) = Inr r
       \<and> (get payload ''log'' (JStr []) = JStr logText
            \<longrightarrow> get_replay_parse (Some (JObj payload)) = Inr r)
       \<and> (re_search gen_pattern logText = None \<longrightarrow> gen r = None)
       \<and> (re_search tier_pattern logText = None \<longrightarrow> tier r = None)
       \<and> (re_search winner_pattern logText = None \<longrightarrow> winner r = None)
       \<and> id_field r = get payload ''id'' JNull
       \<and> format_field r = get payload ''format'' JNull
       \<and> players r = get payload ''players'' JNull
       \<and> metadata r = metadata_of payload
       \<and> full_log r = logText" if fits: "gen_fits logText"
  proof -
    have "parse_replay_data (JStr logText) (JObj payload) = Inr ?r"
      by (rule parse_replay_data_eq [OF fits])
    moreover have "get payload ''log'' (JStr []) = JStr logText
        \<longrightarrow> get_replay_parse (Some (JObj payload)) = Inr ?r"
      by (simp add: get_replay_parse_eq fits)
    moreover have "re_search gen_pattern logText = None \<longrightarrow> gen ?r = None"
      by (simp add: parsed_of_def unset_fields)
    moreover have "re_search tier_pattern logText = None \<longrightarrow> tier ?r = None"
      by (simp add: parsed_of_def unset_fields)
    moreover have "re_search winner_pattern logText = None \<longrightarrow> winner ?r = None"
      by (simp add: parsed_of_def unset_fields)
    moreover have "id_field ?r = get payload ''id'' JNull"
      by (simp add: parsed_of_def)
    moreover have "format_field ?r = get payload ''format'' JNull"
      by (simp add: parsed_of_def)
    moreover have "players ?r = get payload ''players'' JNull"
      by (simp add: parsed_of_def)
    moreover have "metadata ?r = metadata_of payload"
      by (simp add: parsed_of_def)
    moreover have "full_log ?r = logText"
      by (simp add: parsed_of_def)
    ultimately show ?thesis by (intro exI [of _ ?r] conjI)
  qed
  have long: "parse_replay_data (JStr logText) (JObj payload) = Inl ValueError"
    if "\<not> gen_fits logText"
    using that by (rule parse_replay_data_long)
  have "parse_replay_data (JStr []) (JObj payload) = Inr (parsed_of payload [])"
    by (rule parse_replay_data_eq [OF gen_fits_empty])
  then have second: "parse_replay_data (JStr []) (JObj payload) =
       Inr \<lparr>id_field = get payload ''id'' JNull,
            format_field = get payload ''format'' JNull,
            players = get payload ''players'' JNull,
            gen = None, tier = None,
            poke = [''p1'' \<mapsto> [], ''p2'' \<mapsto> []],
            winner = None, rules = [],
            metadata = metadata_of payload,
            full_log = []\<rparr>"
    by (simp only: parsed_of_empty)
  show ?thesis by (intro conjI impI) (erule first, erule long, rule second)
qed

theorem parse_total_within_limit_witness:
  "gen_fits ''|gen|3''
   \<and> re_search tier_pattern ''|gen|3'' = None
   \<and> get [(''id'', JStr ''x''), (''log'', JStr ''|gen|3'')] ''log'' (JStr []) = JStr ''|gen|3''
   \<and> (\<exists>r. parse_replay_data (JStr ''|gen|3'')
            (JObj [(''id'', JStr ''x''), (''log'', JStr ''|gen|3'')]) = Inr r
        \<and> get_replay_parse (Some (JObj [(''id'', JStr ''x''), (''log'', JStr ''|gen|3'')])) = Inr r
        \<and> tier r = None \<and> id_field r = JStr ''x'')"
proof -
  have f: "gen_fits ''|gen|3''" by code_simp
  have a: "re_search tier_pattern ''|gen|3'' = None" by code_simp
  have b: "get [(''id'', JStr ''x''), (''log'', JStr ''|gen|3'')] ''log'' (JStr []) = JStr ''|gen|3''"
    by (simp add: get_def)
  have c: "get [(''id'', JStr ''x''), (''log'', JStr ''|gen|3'')] ''id'' JNull = JStr ''x''"
    by (simp add: get_def)
  let ?d = "[(''id'', JStr ''x''), (''log'', JStr ''|gen|3'')]"
  from parse_total_within_limit [of "''|gen|3''" ?d, THEN conjunct1, rule_format, OF f]
  obtain r where R: "parse_replay_data (JStr ''|gen|3'') (JObj ?d) = Inr r
       \<and> (get ?d ''log'' (JStr []) = JStr ''|gen|3''
            \<longrightarrow> get_replay_parse (Some (JObj ?d)) = Inr r)
       \<and> (re_search gen_pattern ''|gen|3'' = None \<longrightarrow> gen r = None)
       \<and> (re_search tier_pattern ''|gen|3'' = None \<longrightarrow> tier r = None)
       \<and> (re_search winner_pattern ''|gen|3'' = None \<longrightarrow> winner r = None)
       \<and> id_field r = get ?d ''id'' JNull
       \<and> format_field r = get ?d ''format'' JNull
       \<and> players r = get ?d ''players'' JNull
       \<and> metadata r = metadata_of ?d
       \<and> full_log r = ''|gen|3''" ..
  from R have r: "parse_replay_data (JStr ''|gen|3'') (JObj ?d) = Inr r"
    by (elim conjE)
  from R have g: "get ?d ''log'' (JStr []) = JStr ''|gen|3''
       \<longrightarrow> get_replay_parse (Some (JObj ?d)) = Inr r"
    by (elim conjE)
  from R have t: "re_search tier_pattern ''|gen|3'' = None \<longrightarrow> tier r = None"
    by (elim conjE)
  from R have i: "id_field r = get ?d ''id'' JNull"
    by (elim conjE)
  from g b have g': "get_replay_parse (Some (JObj ?d)) = Inr r" by (rule mp)
  from t a have t': "tier r = None" by (rule mp)
  from i c have i': "id_field r = JStr ''x''" by (rule trans)
  from r g' t' i' have "\<exists>r. parse_replay_data (JStr ''|gen|3'') (JObj ?d) = Inr r
        \<and> get_replay_parse (Some (JObj ?d)) = Inr r
        \<and> tier r = None \<and> id_field r = JStr ''x''"
    by (intro exI [of _ r] conjI)
  with f a b show ?thesis by (intro conjI)
qed

text \<open>
  The claim as stated covers every log text. A log whose generation number has 4301
  digits makes \<open>int\<close> raise.
\<close>

theorem parse_overlong_gen_counterexample:
  "parse_replay_data (JStr (''|gen|'' @ replicate 4301 CHR ''1'')) (JObj []) = Inl ValueError"
proof -
  have "int_max_str_digits < 4301" by (simp add: int_max_str_digits_def)
  then have "\<not> gen_fits (''|gen|'' @ replicate 4301 CHR ''1'')" by (rule gen_too_long)
  then show ?thesis by (rule parse_replay_data_long)
qed

section \<open>The first occurrence decides the scalar fields\<close>



section \<open>Rosters follow the order of the log\<close>

text \<open>
  Claim C5. When the parser returns a record for a log text, the roster of each slot is
  the list of the trimmed descriptors of the matches of the reveal pattern whose slot it
  is, in the order in which \<open>finditer\<close> lists them and with repetitions kept. The
  matches are listed from left to right without overlap, each is an occurrence of the
  pattern at its start offset, and every occurrence starts at or inside a listed match.
  For the reveal events \<open>p1:A\<close>, \<open>p2:X\<close>, \<open>p1:B\<close> in this order the rosters are
  \<open>[A, B]\<close> for \<open>p1\<close> and \<open>[X]\<close> for \<open>p2\<close>.
\<close>

theorem roster_in_log_order:
  assumes "parse_replay_data (JStr s) (JObj d) = Inr r \<or>
    (get d ''log'' (JStr []) = JStr s \<and> get_replay_parse (Some (JObj d)) = Inr r)"
  shows "poke r ''p1'' = Some (roster ''p1'' (re_finditer poke_pattern s))
       \<and> poke r ''p2'' = Some (roster ''p2'' (re_finditer poke_pattern s))
       \<and> sorted_wrt (\<lambda>a b. stop a \<le> start b) (re_finditer poke_pattern s)
       \<and> (\<forall>m\<in>set (re_finditer poke_pattern s). occurs poke_pattern s (start m) (groups m))
       \<and> (\<forall>k gs. occurs poke_pattern s k gs \<longrightarrow>
             (\<exists>m\<in>set (re_finditer poke_pattern s). start m \<le> k \<and> (k = start m \<or> k < stop m)))
       \<and> (\<exists>r'. parse_replay_data
                   (JStr ''|poke|p1|A\<newline>|poke|p2|X\<newline>|poke|p1|B\<newline>'') (JObj d) = Inr r'
              \<and> poke r' ''p1'' = Some [''A'', ''B''] \<and> poke r' ''p2'' = Some [''X''])"
proof -
  have r: "r = parsed_of d s" by (rule result_parsed_of(1) [OF assms])
  have p1: "poke r ''p1'' = Some (roster ''p1'' (re_finditer poke_pattern s))"
    by (simp add: r poke_parsed_of)
  have p2: "poke r ''p2'' = Some (roster ''p2'' (re_finditer poke_pattern s))"
    by (simp add: r poke_parsed_of)
  have so: "sorted_wrt (\<lambda>a b. stop a \<le> start b) (re_finditer poke_pattern s)"
    by (simp add: re_finditer_def finditer_at_sorted)
  have oc: "\<forall>m\<in>set (re_finditer poke_pattern s). occurs poke_pattern s (start m) (groups m)"
    by (simp add: finditer_occurs)
  have co: "\<forall>k gs. occurs poke_pattern s k gs \<longrightarrow>
             (\<exists>m\<in>set (re_finditer poke_pattern s). start m \<le> k \<and> (k = start m \<or> k < stop m))"
    by (intro allI impI) (rule finditer_covers)
  let ?ex = "''|poke|p1|A\<newline>|poke|p2|X\<newline>|poke|p1|B\<newline>''"
  have ra: "roster ''p1'' (re_finditer poke_pattern ?ex) = [''A'', ''B'']" by code_simp
  have rx: "roster ''p2'' (re_finditer poke_pattern ?ex) = [''X'']" by code_simp
  have fits: "gen_fits ?ex" by code_simp
  have e1: "parse_replay_data (JStr ?ex) (JObj d) = Inr (parsed_of d ?ex)"
    by (rule parse_replay_data_eq [OF fits])
  have e2: "poke (parsed_of d ?ex) ''p1'' = Some [''A'', ''B'']"
    by (simp only: poke_parsed_of ra) simp
  have e3: "poke (parsed_of d ?ex) ''p2'' = Some [''X'']"
    by (simp only: poke_parsed_of rx) simp
  from e1 e2 e3 have ex: "\<exists>r'. parse_replay_data (JStr ?ex) (JObj d) = Inr r'
              \<and> poke r' ''p1'' = Some [''A'', ''B''] \<and> poke r' ''p2'' = Some [''X'']"
    by (intro exI [of _ "parsed_of d ?ex"] conjI)
  from p1 p2 so oc co ex show ?thesis by (intro conjI)
qed

text \<open>A log in which the same descriptor is revealed twice for \<open>p2\<close>.\<close>

theorem roster_in_log_order_witness:
  "parse_replay_data (JStr ''|poke|p2|X|poke|p1|A|poke|p2|X'') (JObj []) =
      Inr (parsed_of [] ''|poke|p2|X|poke|p1|A|poke|p2|X'')
   \<and> map start (re_finditer poke_pattern ''|poke|p2|X|poke|p1|A|poke|p2|X'') = [0, 10, 20]
   \<and> occurs poke_pattern ''|poke|p2|X|poke|p1|A|poke|p2|X'' 10 [''p1'', ''A'']
   \<and> poke (parsed_of [] ''|poke|p2|X|poke|p1|A|poke|p2|X'') ''p1'' = Some [''A'']
   \<and> poke (parsed_of [] ''|poke|p2|X|poke|p1|A|poke|p2|X'') ''p2'' = Some [''X'', ''X'']"
proof -
  let ?s = "''|poke|p2|X|poke|p1|A|poke|p2|X''"
  have fits: "gen_fits ?s" by code_simp
  have e: "parse_replay_data (JStr ?s) (JObj []) = Inr (parsed_of [] ?s)"
    by (rule parse_replay_data_eq [OF fits])
  then have a: "parse_replay_data (JStr ?s) (JObj []) = Inr (parsed_of [] ?s) \<or>
    (get [] ''log'' (JStr []) = JStr ?s \<and> get_replay_parse (Some (JObj [])) = Inr (parsed_of [] ?s))"
    by (rule disjI1)
  note w = roster_in_log_order [OF a]
  have st: "map start (re_finditer poke_pattern ?s) = [0, 10, 20]" by code_simp
  have oc: "occurs poke_pattern ?s 10 [''p1'', ''A'']" by code_simp
  have r1: "roster ''p1'' (re_finditer poke_pattern ?s) = [''A'']" by code_simp
  have r2: "roster ''p2'' (re_finditer poke_pattern ?s) = [''X'', ''X'']" by code_simp
  from w have "poke (parsed_of [] ?s) ''p1'' = Some (roster ''p1'' (re_finditer poke_pattern ?s))"
    by (elim conjE)
  with r1 have p1: "poke (parsed_of [] ?s) ''p1'' = Some [''A'']" by simp
  from w have "poke (parsed_of [] ?s) ''p2'' = Some (roster ''p2'' (re_finditer poke_pattern ?s))"
    by (elim conjE)
  with r2 have p2: "poke (parsed_of [] ?s) ''p2'' = Some [''X'', ''X'']" by simp
  from e st oc p1 p2 show ?thesis by (intro conjI)
qed

section \<open>The roster dictionary has the two slots only\<close>

text \<open>
  Claim C6. When the parser returns a record, the keys of its roster dictionary are
  exactly \<open>p1\<close> and \<open>p2\<close>, and the rosters are those of the matches whose slot is \<open>p1\<close> or
  \<open>p2\<close>: a match with any other slot leaves the record as it is, in both parsers.
\<close>

theorem only_two_slots:
  assumes "parse_replay_data (JStr s) (JObj d) = Inr r \<or>
    (get d ''log'' (JStr []) = JStr s \<and> get_replay_parse (Some (JObj d)) = Inr r)"
  shows "dom (poke r) = {''p1'', ''p2''}
       \<and> poke r ''p1'' = Some (roster ''p1'' (filter known_slot (re_finditer poke_pattern s)))
       \<and> poke r ''p2'' = Some (roster ''p2'' (filter known_slot (re_finditer poke_pattern s)))
       \<and> (\<forall>m parsed player g.
             groups m = [player, g] \<and> player \<noteq> ''p1'' \<and> player \<noteq> ''p2''
             \<longrightarrow> poke_step m parsed = Inr parsed \<and> gr_poke_step m parsed = Inr parsed)"
proof -
  have r: "r = parsed_of d s" by (rule result_parsed_of(1) [OF assms])
  have dm: "dom (poke r) = {''p1'', ''p2''}"
    by (simp only: r poke_parsed_of) auto
  have p1: "poke r ''p1'' = Some (roster ''p1'' (filter known_slot (re_finditer poke_pattern s)))"
    by (simp add: r poke_parsed_of roster_known)
  have p2: "poke r ''p2'' = Some (roster ''p2'' (filter known_slot (re_finditer poke_pattern s)))"
    by (simp add: r poke_parsed_of roster_known)
  have st: "\<forall>m parsed player g.
             groups m = [player, g] \<and> player \<noteq> ''p1'' \<and> player \<noteq> ''p2''
             \<longrightarrow> poke_step m parsed = Inr parsed \<and> gr_poke_step m parsed = Inr parsed"
    by (intro allI impI) (simp add: gr_poke_step_eq poke_step_unknown)
  from dm p1 p2 st show ?thesis by (intro conjI)
qed

text \<open>A log whose first reveal event is for the slot \<open>p3\<close>.\<close>

theorem only_two_slots_witness:
  "parse_replay_data (JStr ''|poke|p3|Z|poke|p1|A'') (JObj []) =
      Inr (parsed_of [] ''|poke|p3|Z|poke|p1|A'')
   \<and> map groups (re_finditer poke_pattern ''|poke|p3|Z|poke|p1|A'') = [[''p3'', ''Z''], [''p1'', ''A'']]
   \<and> dom (poke (parsed_of [] ''|poke|p3|Z|poke|p1|A'')) = {''p1'', ''p2''}
   \<and> poke (parsed_of [] ''|poke|p3|Z|poke|p1|A'') ''p1'' = Some [''A'']
   \<and> poke (parsed_of [] ''|poke|p3|Z|poke|p1|A'') ''p2'' = Some []
   \<and> poke_step \<lparr>start = 0, stop = 10, groups = [''p3'', ''Z'']\<rparr>
        (parsed_of [] ''|poke|p3|Z|poke|p1|A'') = Inr (parsed_of [] ''|poke|p3|Z|poke|p1|A'')"
proof -
  let ?s = "''|poke|p3|Z|poke|p1|A''"
  have fits: "gen_fits ?s" by code_simp
  have e: "parse_replay_data (JStr ?s) (JObj []) = Inr (parsed_of [] ?s)"
    by (rule parse_replay_data_eq [OF fits])
  then have a: "parse_replay_data (JStr ?s) (JObj []) = Inr (parsed_of [] ?s) \<or>
    (get [] ''log'' (JStr []) = JStr ?s \<and> get_replay_parse (Some (JObj [])) = Inr (parsed_of [] ?s))"
    by (rule disjI1)
  note w = only_two_slots [OF a]
  have gs: "map groups (re_finditer poke_pattern ?s) = [[''p3'', ''Z''], [''p1'', ''A'']]"
    by code_simp
  have r1: "roster ''p1'' (filter known_slot (re_finditer poke_pattern ?s)) = [''A'']"
    by code_simp
  have r2: "roster ''p2'' (filter known_slot (re_finditer poke_pattern ?s)) = []"
    by code_simp
  from w have dm: "dom (poke (parsed_of [] ?s)) = {''p1'', ''p2''}" by (elim conjE)
  from w have "poke (parsed_of [] ?s) ''p1'' =
      Some (roster ''p1'' (filter known_slot (re_finditer poke_pattern ?s)))" by (elim conjE)
  with r1 have p1: "poke (parsed_of [] ?s) ''p1'' = Some [''A'']" by simp
  from w have "poke (parsed_of [] ?s) ''p2'' =
      Some (roster ''p2'' (filter known_slot (re_finditer poke_pattern ?s)))" by (elim conjE)
  with r2 have p2: "poke (parsed_of [] ?s) ''p2'' = Some []" by simp
  from w have "\<forall>m parsed player g.
             groups m = [player, g] \<and> player \<noteq> ''p1'' \<and> player \<noteq> ''p2''
             \<longrightarrow> poke_step m parsed = Inr parsed \<and> gr_poke_step m parsed = Inr parsed"
    by (elim conjE)
  then have "groups \<lparr>start = 0, stop = 10, groups = [''p3'', ''Z'']\<rparr> = [''p3'', ''Z'']
        \<and> ''p3'' \<noteq> ''p1'' \<and> ''p3'' \<noteq> ''p2''
      \<longrightarrow> poke_step \<lparr>start = 0, stop = 10, groups = [''p3'', ''Z'']\<rparr> (parsed_of [] ?s)
          = Inr (parsed_of [] ?s)"
    by blast
  then have ps: "poke_step \<lparr>start = 0, stop = 10, groups = [''p3'', ''Z'']\<rparr> (parsed_of [] ?s)
          = Inr (parsed_of [] ?s)" by simp
  from e gs dm p1 p2 ps show ?thesis by (intro conjI)
qed

section \<open>One replay: a write only with a returned record\<close>

text \<open>
  Claim C7, as amended. A call of \<open>_download_replay\<close> issues one request and opens at
  most one file, the output path. If it returns a record, exactly one file was opened
  and written in full, the output path with that record; if it returns \<open>None\<close>, no write
  was completed. A request that raises, and a response with a status other than 200,
  give \<open>None\<close>, one logged error, and no file opened or written; so does a body that does
  not decode, a body that is not a dictionary, and a log that does not parse. When the
  fetch, the decoding and the parse succeed, the output path is opened once, and what
  follows is decided by the file system: if the open is refused the result is \<open>None\<close>
  and nothing is written; if the open succeeds and the write fails the result is \<open>None\<close>
  and the file is left cut short; otherwise the record is written and returned.
\<close>

theorem one_write_per_success:
  "(\<forall>r w'. download_replay E url path w = (Some r, w')
       \<longrightarrow> writes w' = writes w @ [(path, ReplayFile r)]
           \<and> opened w' = opened w @ [path]
           \<and> truncated w' = truncated w
           \<and> requests w' = requests w @ [full_url url])
   \<and> (\<forall>w'. download_replay E url path w = (None, w')
       \<longrightarrow> writes w' = writes w
           \<and> (opened w' = opened w \<or> opened w' = opened w @ [path])
           \<and> requests w' = requests w @ [full_url url])
   \<and> (\<forall>resp. net E w (full_url url) = Inr resp \<and> status_code resp \<noteq> 200
       \<longrightarrow> download_replay E url path w =
             (None, w\<lparr>requests := requests w @ [full_url url],
                      log_lines := log_lines w @
                        [Error_failed_download (full_url url) (status_code resp)]\<rparr>))
   \<and> (\<forall>e. net E w (full_url url) = Inl e
       \<longrightarrow> download_replay E url path w =
             (None, w\<lparr>requests := requests w @ [full_url url],
                      log_lines := log_lines w @ [Error_processing (full_url url) e]\<rparr>))
   \<and> (\<forall>resp. net E w (full_url url) = Inr resp
         \<and> (body resp = None
              \<or> (\<exists>v. body resp = Some v \<and> (\<forall>d. v \<noteq> JObj d))
              \<or> (\<exists>d e. body resp = Some (JObj d)
                    \<and> parse_replay_data (get d ''log'' (JStr [])) (JObj d) = Inl e))
       \<longrightarrow> fst (download_replay E url path w) = None
           \<and> opened (snd (download_replay E url path w)) = opened w
           \<and> writes (snd (download_replay E url path w)) = writes w
           \<and> truncated (snd (download_replay E url path w)) = truncated w)
   \<and> (\<forall>resp d r. net E w (full_url url) = Inr resp \<and> status_code resp = 200
         \<and> body resp = Some (JObj d)
         \<and> parse_replay_data (get d ''log'' (JStr [])) (JObj d) = Inr r
       \<longrightarrow> download_replay E url path w =
             (if \<not> writable E (w\<lparr>requests := requests w @ [full_url url]\<rparr>) path
              then (None, w\<lparr>requests := requests w @ [full_url url],
                             opened := opened w @ [path],
                             log_lines := log_lines w @
                               [Error_processing (full_url url) OSError]\<rparr>)
              else if \<not> dumpable E (w\<lparr>requests := requests w @ [full_url url]\<rparr>) path
              then (None, w\<lparr>requests := requests w @ [full_url url],
                             opened := opened w @ [path],
                             truncated := truncated w @ [path],
                             log_lines := log_lines w @
                               [Error_processing (full_url url) OSError]\<rparr>)
              else (Some r, w\<lparr>requests := requests w @ [full_url url],
                              opened := opened w @ [path],
                              writes := writes w @ [(path, ReplayFile r)]\<rparr>)))"
proof (intro conjI allI impI)
  fix r w' assume "download_replay E url path w = (Some r, w')"
  from download_replay_writes [OF this]
  show "writes w' = writes w @ [(path, ReplayFile r)]" "opened w' = opened w @ [path]"
    "truncated w' = truncated w" "requests w' = requests w @ [full_url url]"
    by simp_all
next
  fix w' assume "download_replay E url path w = (None, w')"
  from download_replay_writes [OF this]
  show "writes w' = writes w" "opened w' = opened w \<or> opened w' = opened w @ [path]"
    "requests w' = requests w @ [full_url url]"
    by simp_all
next
  fix resp assume "net E w (full_url url) = Inr resp \<and> status_code resp \<noteq> 200"
  then show "download_replay E url path w =
             (None, w\<lparr>requests := requests w @ [full_url url],
                      log_lines := log_lines w @
                        [Error_failed_download (full_url url) (status_code resp)]\<rparr>)"
    by (simp add: download_replay_non200)
next
  fix e assume "net E w (full_url url) = Inl e"
  then show "download_replay E url path w =
             (None, w\<lparr>requests := requests w @ [full_url url],
                      log_lines := log_lines w @ [Error_processing (full_url url) e]\<rparr>)"
    by (rule download_replay_raised)
next
  fix resp
  assume a: "net E w (full_url url) = Inr resp
         \<and> (body resp = None
              \<or> (\<exists>v. body resp = Some v \<and> (\<forall>d. v \<noteq> JObj d))
              \<or> (\<exists>d e. body resp = Some (JObj d)
                    \<and> parse_replay_data (get d ''log'' (JStr [])) (JObj d) = Inl e))"
  then have n: "net E w (full_url url) = Inr resp"
    and c: "status_code resp \<noteq> 200 \<or> body resp = None
         \<or> (\<exists>v. body resp = Some v \<and> (\<forall>d. v \<noteq> JObj d))
         \<or> (\<exists>d e. body resp = Some (JObj d)
               \<and> parse_replay_data (get d ''log'' (JStr [])) (JObj d) = Inl e)"
    by blast+
  from download_replay_no_open [OF n c]
  show "fst (download_replay E url path w) = None"
    "opened (snd (download_replay E url path w)) = opened w"
    "writes (snd (download_replay E url path w)) = writes w"
    "truncated (snd (download_replay E url path w)) = truncated w"
    by blast+
next
  fix resp d r
  assume "net E w (full_url url) = Inr resp \<and> status_code resp = 200
         \<and> body resp = Some (JObj d)
         \<and> parse_replay_data (get d ''log'' (JStr [])) (JObj d) = Inr r"
  then show "download_replay E url path w =
             (if \<not> writable E (w\<lparr>requests := requests w @ [full_url url]\<rparr>) path
              then (None, w\<lparr>requests := requests w @ [full_url url],
                             opened := opened w @ [path],
                             log_lines := log_lines w @
                               [Error_processing (full_url url) OSError]\<rparr>)
              else if \<not> dumpable E (w\<lparr>requests := requests w @ [full_url url]\<rparr>) path
              then (None, w\<lparr>requests := requests w @ [full_url url],
                             opened := opened w @ [path],
                             truncated := truncated w @ [path],
                             log_lines := log_lines w @
                               [Error_processing (full_url url) OSError]\<rparr>)
              else (Some r, w\<lparr>requests := requests w @ [full_url url],
                              opened := opened w @ [path],
                              writes := writes w @ [(path, ReplayFile r)]\<rparr>))"
    by (simp add: download_replay_success download_replay_refused download_replay_cut)
qed

text \<open>
  A replay that the service has, fetched into the empty state, and one it does not have.
\<close>

theorem one_write_per_success_witness:
  "net (serving [(''https://replay.pokemonshowdown.com/a.json'', JObj [(''id'', JStr ''a'')])])
       empty_world (full_url ''a.json'')
     = Inr \<lparr>status_code = 200, body = Some (JObj [(''id'', JStr ''a'')])\<rparr>
   \<and> net (serving [(''https://replay.pokemonshowdown.com/a.json'', JObj [(''id'', JStr ''a'')])])
       empty_world (full_url ''b.json'')
     = Inr \<lparr>status_code = 404, body = None\<rparr>
   \<and> fst (download_replay
        (serving [(''https://replay.pokemonshowdown.com/a.json'', JObj [(''id'', JStr ''a'')])])
        ''a.json'' ''info/all/a.json'' empty_world) = Some (parsed_of [(''id'', JStr ''a'')] [])
   \<and> map fst (writes (snd (download_replay
        (serving [(''https://replay.pokemonshowdown.com/a.json'', JObj [(''id'', JStr ''a'')])])
        ''a.json'' ''info/all/a.json'' empty_world))) = [''info/all/a.json'']
   \<and> opened (snd (download_replay
        (serving [(''https://replay.pokemonshowdown.com/a.json'', JObj [(''id'', JStr ''a'')])])
        ''a.json'' ''info/all/a.json'' empty_world)) = [''info/all/a.json'']
   \<and> fst (download_replay
        (serving [(''https://replay.pokemonshowdown.com/a.json'', JObj [(''id'', JStr ''a'')])])
        ''b.json'' ''info/all/b.json'' empty_world) = None
   \<and> writes (snd (download_replay
        (serving [(''https://replay.pokemonshowdown.com/a.json'', JObj [(''id'', JStr ''a'')])])
        ''b.json'' ''info/all/b.json'' empty_world)) = []
   \<and> opened (snd (download_replay
        (serving [(''https://replay.pokemonshowdown.com/a.json'', JObj [(''id'', JStr ''a'')])])
        ''b.json'' ''info/all/b.json'' empty_world)) = []"
proof -
  let ?E = "serving [(''https://replay.pokemonshowdown.com/a.json'', JObj [(''id'', JStr ''a'')])]"
  let ?d = "[(''id'', JStr ''a'')]"
  let ?ra = "\<lparr>status_code = 200, body = Some (JObj ?d)\<rparr>"
  let ?rb = "\<lparr>status_code = 404, body = None :: json option\<rparr>"
  note w = one_write_per_success [of ?E "''a.json''" "''info/all/a.json''" empty_world]
  note v = one_write_per_success [of ?E "''b.json''" "''info/all/b.json''" empty_world]
  have ua: "full_url ''a.json'' = ''https://replay.pokemonshowdown.com/a.json''"
    by (simp add: full_url_def replay_host_def)
  have ub: "full_url ''b.json'' = ''https://replay.pokemonshowdown.com/b.json''"
    by (simp add: full_url_def replay_host_def)
  have na: "net ?E empty_world (full_url ''a.json'') = Inr ?ra"
    by (simp add: ua serving_def)
  have nb: "net ?E empty_world (full_url ''b.json'') = Inr ?rb"
    by (simp add: ub serving_def)
  have lg: "get ?d ''log'' (JStr []) = JStr []" by (simp add: get_def)
  have pa: "parse_replay_data (get ?d ''log'' (JStr [])) (JObj ?d) = Inr (parsed_of ?d [])"
    by (simp only: lg parse_replay_data_eq [OF gen_fits_empty])
  have wr: "\<not> writable ?E (empty_world\<lparr>requests := requests empty_world @ [full_url ''a.json'']\<rparr>)
      ''info/all/a.json'' \<longleftrightarrow> False"
    by (simp add: serving_def)
  have dp: "\<not> dumpable ?E (empty_world\<lparr>requests := requests empty_world @ [full_url ''a.json'']\<rparr>)
      ''info/all/a.json'' \<longleftrightarrow> False"
    by (simp add: serving_def)
  have ha: "net ?E empty_world (full_url ''a.json'') = Inr ?ra \<and> status_code ?ra = 200
         \<and> body ?ra = Some (JObj ?d)
         \<and> parse_replay_data (get ?d ''log'' (JStr [])) (JObj ?d) = Inr (parsed_of ?d [])"
    using na pa by simp
  note wa = w [THEN conjunct2, THEN conjunct2, THEN conjunct2, THEN conjunct2, THEN conjunct2,
      rule_format, OF ha]
  from wa
  have da: "download_replay ?E ''a.json'' ''info/all/a.json'' empty_world =
      (Some (parsed_of ?d []),
       empty_world\<lparr>requests := requests empty_world @ [full_url ''a.json''],
         opened := opened empty_world @ [''info/all/a.json''],
         writes := writes empty_world @ [(''info/all/a.json'', ReplayFile (parsed_of ?d []))]\<rparr>)"
    by (simp only: wr dp if_False)
  have hb: "net ?E empty_world (full_url ''b.json'') = Inr ?rb \<and> status_code ?rb \<noteq> 200"
    using nb by simp
  note db = v [THEN conjunct2, THEN conjunct2, THEN conjunct1, rule_format, OF hb]
  have a1: "fst (download_replay ?E ''a.json'' ''info/all/a.json'' empty_world)
      = Some (parsed_of ?d [])" by (simp only: da fst_conv)
  have a2: "map fst (writes (snd (download_replay ?E ''a.json'' ''info/all/a.json'' empty_world)))
      = [''info/all/a.json'']" by (simp only: da) (simp add: empty_world_def)
  have a3: "opened (snd (download_replay ?E ''a.json'' ''info/all/a.json'' empty_world))
      = [''info/all/a.json'']" by (simp only: da) (simp add: empty_world_def)
  have b1: "fst (download_replay ?E ''b.json'' ''info/all/b.json'' empty_world) = None"
    by (simp only: db fst_conv)
  have b2: "writes (snd (download_replay ?E ''b.json'' ''info/all/b.json'' empty_world)) = []"
    by (simp only: db) (simp add: empty_world_def)
  have b3: "opened (snd (download_replay ?E ''b.json'' ''info/all/b.json'' empty_world)) = []"
    by (simp only: db) (simp add: empty_world_def)
  from na nb a1 a2 a3 b1 b2 b3 show ?thesis by (intro conjI)
qed

text \<open>
  The claim as stated promises one write whenever the fetch, the decoding and the parse
  succeed, and no write otherwise. The replay \<open>a\<close> is served with status 200 and parses.
  Where the output file cannot be opened, the call returns \<open>None\<close> and there is no write;
  where the write fails after the open, the call returns \<open>None\<close> and leaves a file.
\<close>

theorem write_refused_counterexample:
  "net read_only empty_world (full_url ''a.json'')
     = Inr \<lparr>status_code = 200,
            body = Some (JObj [(''id'', JStr ''a''), (''log'', JStr ''|gen|8'')])\<rparr>
   \<and> map_sum id gen (parse_replay_data (JStr ''|gen|8'')
        (JObj [(''id'', JStr ''a''), (''log'', JStr ''|gen|8'')])) = Inr (Some 8)
   \<and> fst (download_replay read_only ''a.json'' ''info/all/a.json'' empty_world) = None
   \<and> writes (snd (download_replay read_only ''a.json'' ''info/all/a.json'' empty_world)) = []
   \<and> fst (download_replay disk_full ''a.json'' ''info/all/a.json'' empty_world) = None
   \<and> truncated (snd (download_replay disk_full ''a.json'' ''info/all/a.json'' empty_world))
       = [''info/all/a.json'']"
  by code_simp

section \<open>One user: failures are skipped\<close>




section \<open>A failed ladder fetch ends the run\<close>

text \<open>
  Claim C2, as amended. When the two output directories are in place and the request for
  the ladder is answered with a status other than 200, \<open>download_ladder_replays\<close> logs
  the failure and returns: the run has opened and written no file and has requested nothing but the
  ladder, neither a user's list nor a replay. The function returns normally, so the
  script ends with exit status 0.
\<close>

theorem ladder_failure_ends_run:
  assumes "safe_mkdir E ''info'' w = (Inr (), w1)"
    and "safe_mkdir E ''info/all'' w1 = (Inr (), w2)"
    and "net E w2 (ladder_url ''gen3ou'') = Inr resp"
    and "status_code resp \<noteq> 200"
  shows "fst (thread_scrape_main E w) = 0
       \<and> writes (snd (thread_scrape_main E w)) = writes w
       \<and> opened (snd (thread_scrape_main E w)) = opened w
       \<and> requests (snd (thread_scrape_main E w)) = requests w @ [ladder_url ''gen3ou'']
       \<and> log_lines (snd (thread_scrape_main E w)) =
           log_lines w @ [Error_failed_ladder (status_code resp)]"
proof -
  from safe_mkdir_fields [OF assms(1)] safe_mkdir_fields [OF assms(2)]
  have same: "requests w2 = requests w" "writes w2 = writes w" "opened w2 = opened w"
    "log_lines w2 = log_lines w"
    by simp_all
  have "thread_scrape_main E w =
      (0, w2\<lparr>requests := requests w2 @ [ladder_url ''gen3ou''],
             log_lines := log_lines w2 @ [Error_failed_ladder (status_code resp)]\<rparr>)"
    by (simp add: thread_scrape_main_def download_ladder_non200 [OF assms] exit_status_def)
  with same show ?thesis by simp
qed

theorem ladder_failure_ends_run_witness:
  "safe_mkdir (serving []) ''info'' empty_world = (Inr (), empty_world\<lparr>dirs := {''info''}\<rparr>)
   \<and> safe_mkdir (serving []) ''info/all'' (empty_world\<lparr>dirs := {''info''}\<rparr>)
       = (Inr (), empty_world\<lparr>dirs := {''info'', ''info/all''}\<rparr>)
   \<and> net (serving []) (empty_world\<lparr>dirs := {''info'', ''info/all''}\<rparr>) (ladder_url ''gen3ou'')
       = Inr \<lparr>status_code = 404, body = None\<rparr>
   \<and> fst (thread_scrape_main (serving []) empty_world) = 0
   \<and> writes (snd (thread_scrape_main (serving []) empty_world)) = []
   \<and> requests (snd (thread_scrape_main (serving []) empty_world))
       = [''https://pokemonshowdown.com/ladder/gen3ou.json'']"
proof -
  have m1: "safe_mkdir (serving []) ''info'' empty_world
      = (Inr (), empty_world\<lparr>dirs := {''info''}\<rparr>)"
    by (simp add: safe_mkdir_def makedirs_def path_exists_def ancestors_def serving_def
        empty_world_def)
  have anc: "set (ancestors ''info/all'') = {''info'', ''info/all''}" by code_simp
  have m2: "safe_mkdir (serving []) ''info/all'' (empty_world\<lparr>dirs := {''info''}\<rparr>)
      = (Inr (), empty_world\<lparr>dirs := {''info'', ''info/all''}\<rparr>)"
    by (simp add: safe_mkdir_def makedirs_def path_exists_def anc serving_def empty_world_def
        insert_commute)
  have n: "net (serving []) (empty_world\<lparr>dirs := {''info'', ''info/all''}\<rparr>) (ladder_url ''gen3ou'')
      = Inr \<lparr>status_code = 404, body = None\<rparr>"
    by (simp add: serving_def)
  have s: "status_code \<lparr>status_code = 404, body = None\<rparr> \<noteq> 200" by simp
  note w = ladder_failure_ends_run [OF m1 m2 n s]
  from w have a: "fst (thread_scrape_main (serving []) empty_world) = 0" by (elim conjE)
  from w have "writes (snd (thread_scrape_main (serving []) empty_world)) = writes empty_world"
    by (elim conjE)
  then have b: "writes (snd (thread_scrape_main (serving []) empty_world)) = []"
    by (simp add: empty_world_def)
  from w have "requests (snd (thread_scrape_main (serving []) empty_world))
      = requests empty_world @ [ladder_url ''gen3ou'']" by (elim conjE)
  then have c: "requests (snd (thread_scrape_main (serving []) empty_world))
       = [''https://pokemonshowdown.com/ladder/gen3ou.json'']"
    by (simp add: empty_world_def ladder_url_def)
  from m1 m2 n a b c show ?thesis by (intro conjI)
qed

text \<open>
  The claim as stated asks for a run outcome other than zero. With every request
  answered by status 404, the ladder fetch fails and the exit status is 0.
\<close>

theorem ladder_failure_exit_counterexample:
  "net (serving []) (empty_world\<lparr>dirs := {''info'', ''info/all''}\<rparr>) (ladder_url ''gen3ou'')
       = Inr \<lparr>status_code = 404, body = None\<rparr>
   \<and> \<not> fst (thread_scrape_main (serving []) empty_world) \<noteq> 0"
proof -
  have n: "net (serving []) (empty_world\<lparr>dirs := {''info'', ''info/all''}\<rparr>) (ladder_url ''gen3ou'')
      = Inr \<lparr>status_code = 404, body = None\<rparr>"
    by (simp add: serving_def)
  have "fst (thread_scrape_main (serving []) empty_world) = 0" by code_simp
  with n show ?thesis by simp
qed

section \<open>\<open>get_replay\<close> on a failed fetch\<close>

text \<open>
  Claim C9. When the response to \<open>get_replay\<close>'s request has a status other than 200, the
  function prints the failure and then raises UnboundLocalError (a NameError) at the first
  read of \<open>data_dict\<close>, which was not assigned; it returns no value and has opened and
  written no file.
\<close>

theorem get_replay_unbound:
  assumes "net E w (full_url url) = Inr resp" and "status_code resp \<noteq> 200"
  shows "get_replay E url path w =
           (Inl UnboundLocalError,
            w\<lparr>requests := requests w @ [full_url url],
              log_lines := log_lines w @ [Print_failed (status_code resp)]\<rparr>)
       \<and> writes (snd (get_replay E url path w)) = writes w
       \<and> opened (snd (get_replay E url path w)) = opened w"
proof -
  have "get_replay E url path w =
           (Inl UnboundLocalError,
            w\<lparr>requests := requests w @ [full_url url],
              log_lines := log_lines w @ [Print_failed (status_code resp)]\<rparr>)"
    by (rule get_replay_non200 [OF assms])
  then show ?thesis by simp
qed

theorem get_replay_unbound_witness:
  "net (serving []) empty_world (full_url ''gen8ou-1.json'') = Inr \<lparr>status_code = 404, body = None\<rparr>
   \<and> status_code \<lparr>status_code = 404, body = None\<rparr> \<noteq> 200
   \<and> fst (get_replay (serving []) ''gen8ou-1.json'' ''info/all/gen8ou-1.json'' empty_world)
       = Inl UnboundLocalError
   \<and> writes (snd (get_replay (serving []) ''gen8ou-1.json'' ''info/all/gen8ou-1.json''
       empty_world)) = []"
proof -
  have n: "net (serving []) empty_world (full_url ''gen8ou-1.json'')
      = Inr \<lparr>status_code = 404, body = None\<rparr>"
    by (simp add: serving_def)
  have s: "status_code \<lparr>status_code = 404, body = None\<rparr> \<noteq> 200" by simp
  note w = get_replay_unbound [OF n s, of "''info/all/gen8ou-1.json''"]
  from w have "get_replay (serving []) ''gen8ou-1.json'' ''info/all/gen8ou-1.json''
      empty_world = (Inl UnboundLocalError,
            empty_world\<lparr>requests := requests empty_world @ [full_url ''gen8ou-1.json''],
              log_lines := log_lines empty_world @
                [Print_failed (status_code \<lparr>status_code = 404, body = None\<rparr>)]\<rparr>)"
    by (elim conjE)
  then have a: "fst (get_replay (serving []) ''gen8ou-1.json'' ''info/all/gen8ou-1.json''
      empty_world) = Inl UnboundLocalError" by (simp only: fst_conv)
  from w have "writes (snd (get_replay (serving []) ''gen8ou-1.json''
      ''info/all/gen8ou-1.json'' empty_world)) = writes empty_world" by (elim conjE)
  then have b: "writes (snd (get_replay (serving []) ''gen8ou-1.json''
      ''info/all/gen8ou-1.json'' empty_world)) = []" by (simp only: empty_world_def) simp
  from n s a b show ?thesis by (intro conjI)
qed

section \<open>Creating the output directory\<close>


section \<open>The sequential driver after a failed list fetch\<close>



end
